theory Spec2Isabelle
  imports Main
begin

section \<open>Values, faults and elements\<close>

text \<open>
  The payloads that flow through a stream are Python objects. The model keeps the
  immutable, hashable ones the stages of \<^verbatim>\<open>stream.py\<close> inspect: \<^verbatim>\<open>None\<close>,
  integers, strings and tuples. Every one of them can be a dictionary key, and Python's
  \<^verbatim>\<open>==\<close> on them is structural equality.
\<close>

datatype val = VNone | VInt int | VStr string | VTuple "val list"

text \<open>
  Exceptions are values. \<open>UserError\<close> is whatever a user-supplied transform raises;
  \<open>BadReference\<close> is returned where the model is handed an address that names no
  object, which no Python reference can do.
\<close>

datatype error =
    TypeError | IndexError | AttributeError | AssertionError
  | StopIteration | ValueError | RuntimeError
  | UserError string | BadReference

text \<open>\<^verbatim>\<open>class Element\<close>: a payload and the identity of a stream.\<close>

record element =
  stream_id :: string
  data :: val

text \<open>
  \<^verbatim>\<open>element.data[i]\<close> for \<open>i\<close> in \<open>{0, 1}\<close>, the only subscripts \<^verbatim>\<open>Joiner.process\<close>
  uses: a tuple or a string is indexed (\<^verbatim>\<open>IndexError\<close> past its end), \<^verbatim>\<open>None\<close> and
  integers are not subscriptable (\<^verbatim>\<open>TypeError\<close>).
\<close>

fun getitem :: "val \<Rightarrow> nat \<Rightarrow> error + val" where
  "getitem (VTuple xs) i = (if i < length xs then Inr (xs ! i) else Inl IndexError)"
| "getitem (VStr s) i = (if i < length s then Inr (VStr [s ! i]) else Inl IndexError)"
| "getitem VNone i = Inl TypeError"
| "getitem (VInt n) i = Inl TypeError"

text \<open>An object store is a list; an address is an index into it.\<close>

definition lookup :: "'a list \<Rightarrow> nat \<Rightarrow> 'a option" where
  "lookup xs i = (if i < length xs then Some (xs ! i) else None)"

section \<open>The bounded correlation cache\<close>

text \<open>
  Modelled from the spec: \<^verbatim>\<open>pylru.lrucache\<close> is a third-party class that is not part
  of the sources; \<^verbatim>\<open>Joiner\<close> calls its constructor, \<^verbatim>\<open>get\<close> and item assignment.
  The spec describes it as a fixed-capacity mapping from key to most-recently-cached
  value per key, with least-recently-used eviction when capacity is exceeded. The
  entries are kept most recently used first; a lookup that hits and a store both count
  as a use. The capacity must be positive (the constructor asserts it).
\<close>

record lrucache =
  entries :: "(val \<times> val) list"
  capacity :: nat

definition lrucache_init :: "int \<Rightarrow> error + lrucache" where
  "lrucache_init n =
     (if 0 < n then Inr \<lparr>entries = [], capacity = nat n\<rparr> else Inl AssertionError)"

text \<open>\<^verbatim>\<open>cache.get(key)\<close>: the cached value, or \<^verbatim>\<open>None\<close> when the key is absent.\<close>

definition lru_get :: "val \<Rightarrow> lrucache \<Rightarrow> val \<times> lrucache" where
  "lru_get k c =
     (case map_of (entries c) k of
        None \<Rightarrow> (VNone, c)
      | Some v \<Rightarrow> (v, c\<lparr>entries := (k, v) # filter (\<lambda>p. fst p \<noteq> k) (entries c)\<rparr>))"

text \<open>\<^verbatim>\<open>cache[key] = value\<close>: a new key in a full cache replaces the least recently used entry.\<close>

definition lru_set :: "val \<Rightarrow> val \<Rightarrow> lrucache \<Rightarrow> lrucache" where
  "lru_set k v c =
     (if k \<in> fst ` set (entries c)
      then c\<lparr>entries := (k, v) # filter (\<lambda>p. fst p \<noteq> k) (entries c)\<rparr>
      else if capacity c \<le> length (entries c)
      then c\<lparr>entries := (k, v) # butlast (entries c)\<rparr>
      else c\<lparr>entries := (k, v) # entries c\<rparr>)"

section \<open>Streams, filters and generators\<close>

text \<open>
  \<^verbatim>\<open>class Stream\<close>: \<open>head\<close> is the generator the entry point sends to, \<open>filters\<close> the
  appended filter objects in order, \<open>ident\<close> the attribute \<^verbatim>\<open>id\<close>.
\<close>

record stream =
  head :: "nat option"
  filters :: "nat list"
  ident :: string

text \<open>
  \<^verbatim>\<open>class Joiner\<close>: the two caches and the addresses of the left, right and target
  streams, whose \<^verbatim>\<open>id\<close> is read at each call.
\<close>

record joiner =
  cache_left :: lrucache
  cache_right :: lrucache
  left :: nat
  right :: nat
  target :: nat
  max_size :: int

text \<open>
  The three concrete filters. A user-supplied function is a function on payloads that
  returns a payload or raises; \<^verbatim>\<open>Reducer\<close> carries \<^verbatim>\<open>__f\<close>, \<^verbatim>\<open>__acc\<close> and
  \<^verbatim>\<open>__initial\<close>.
\<close>

datatype kind =
    Mapper "val \<Rightarrow> error + val"
  | Reducer "val \<Rightarrow> val \<Rightarrow> error + val" val val
  | Joiner joiner

text \<open>\<^verbatim>\<open>class Filter\<close>: the attribute \<^verbatim>\<open>next\<close> is a generator or \<^verbatim>\<open>None\<close>.\<close>

record fltr =
  kind :: kind
  nxt :: "nat option"

text \<open>
  \<^verbatim>\<open>Filter.__call__\<close> is a generator function: each call \<^verbatim>\<open>fltr()\<close> makes a generator
  object bound to the filter \<open>owner\<close>. A generator is suspended at its \<^verbatim>\<open>yield\<close>,
  running, or finished (an exception left its body).
\<close>

datatype gstatus = Suspended | Running | Finished

record generator =
  owner :: nat
  status :: gstatus

record state =
  streams :: "stream list"
  fltrs :: "fltr list"
  gens :: "generator list"

definition new_state :: state where
  "new_state = \<lparr>streams = [], fltrs = [], gens = []\<rparr>"

text \<open>
  What a call of \<^verbatim>\<open>self.process(element)\<close> inside a generator returned, recorded with
  the address of the filter: an element (\<open>Emit\<close>) or \<^verbatim>\<open>None\<close> (\<open>Drop\<close>). The list of these
  events is how the model observes a run; the code itself returns nothing.
\<close>

datatype event = Emit nat element | Drop nat

subsection \<open>The \<^verbatim>\<open>process\<close> methods\<close>

text \<open>\<^verbatim>\<open>Mapper.process\<close>\<close>

definition Mapper_process :: "(val \<Rightarrow> error + val) \<Rightarrow> element \<Rightarrow> error + element option" where
  "Mapper_process f e =
     (case f (data e) of
        Inl err \<Rightarrow> Inl err
      | Inr result \<Rightarrow> Inr (Some \<lparr>stream_id = stream_id e, data = result\<rparr>))"

text \<open>\<^verbatim>\<open>Reducer.process\<close>: returns the result and the new \<^verbatim>\<open>__acc\<close>.\<close>

definition Reducer_process ::
  "(val \<Rightarrow> val \<Rightarrow> error + val) \<Rightarrow> val \<Rightarrow> element \<Rightarrow> (error + element option) \<times> val" where
  "Reducer_process f acc e =
     (case f (data e) acc of
        Inl err \<Rightarrow> (Inl err, acc)
      | Inr acc' \<Rightarrow> (Inr (Some \<lparr>stream_id = stream_id e, data = acc'\<rparr>), acc'))"

text \<open>\<^verbatim>\<open>Joiner.process\<close>\<close>

definition Joiner_process ::
  "stream list \<Rightarrow> joiner \<Rightarrow> element \<Rightarrow> (error + element option) \<times> joiner" where
  "Joiner_process ss j e =
     (case getitem (data e) 0 of
        Inl err \<Rightarrow> (Inl err, j)
      | Inr key \<Rightarrow>
     (case getitem (data e) 1 of
        Inl err \<Rightarrow> (Inl err, j)
      | Inr value \<Rightarrow>
     (case lookup ss (left j) of
        None \<Rightarrow> (Inl BadReference, j)
      | Some l \<Rightarrow>
        if stream_id e = ident l then
          (case lru_get key (cache_right j) of (cached, cr) \<Rightarrow>
             if cached \<noteq> VNone then
               (case lookup ss (target j) of
                  None \<Rightarrow> (Inl BadReference, j\<lparr>cache_right := cr\<rparr>)
                | Some t \<Rightarrow>
                    (Inr (Some \<lparr>stream_id = ident t,
                                data = VTuple [key, VTuple [value, cached] ]\<rparr>),
                     j\<lparr>cache_right := cr\<rparr>))
             else (Inr None, j\<lparr>cache_right := cr, cache_left := lru_set key value (cache_left j)\<rparr>))
        else
          (case lru_get key (cache_left j) of (cached, cl) \<Rightarrow>
             if cached \<noteq> VNone then
               (case lookup ss (target j) of
                  None \<Rightarrow> (Inl BadReference, j\<lparr>cache_left := cl\<rparr>)
                | Some t \<Rightarrow>
                    (Inr (Some \<lparr>stream_id = ident t,
                                data = VTuple [key, VTuple [cached, value] ]\<rparr>),
                     j\<lparr>cache_left := cl\<rparr>))
             else (Inr None, j\<lparr>cache_left := cl, cache_right := lru_set key value (cache_right j)\<rparr>)))))"

text \<open>The dispatch of \<^verbatim>\<open>self.process(element)\<close> on the class of the filter.\<close>

fun Filter_process ::
  "stream list \<Rightarrow> kind \<Rightarrow> element \<Rightarrow> (error + element option) \<times> kind" where
  "Filter_process ss (Mapper f) e = (Mapper_process f e, Mapper f)"
| "Filter_process ss (Reducer f acc initial) e =
     (case Reducer_process f acc e of (r, acc') \<Rightarrow> (r, Reducer f acc' initial))"
| "Filter_process ss (Joiner j) e =
     (case Joiner_process ss j e of (r, j') \<Rightarrow> (r, Joiner j'))"

subsection \<open>Sending an element to a generator\<close>

definition set_status :: "nat \<Rightarrow> gstatus \<Rightarrow> state \<Rightarrow> state" where
  "set_status g st s = s\<lparr>gens := (gens s)[g := (gens s ! g)\<lparr>status := st\<rparr>]\<rparr>"

definition set_kind :: "nat \<Rightarrow> kind \<Rightarrow> state \<Rightarrow> state" where
  "set_kind a k s = s\<lparr>fltrs := (fltrs s)[a := (fltrs s ! a)\<lparr>kind := k\<rparr>]\<rparr>"

text \<open>
  An exception that leaves a generator body: a \<^verbatim>\<open>StopIteration\<close> is replaced by a
  \<^verbatim>\<open>RuntimeError\<close> (PEP 479, Python 3.7 and later); any other passes unchanged.
\<close>

fun leave_generator :: "error \<Rightarrow> error" where
  "leave_generator StopIteration = RuntimeError"
| "leave_generator err = err"

definition suspended_count :: "state \<Rightarrow> nat" where
  "suspended_count s = length (filter (\<lambda>g. status g = Suspended) (gens s))"

text \<open>
  \<^verbatim>\<open>it.send(element)\<close> on a generator of \<^verbatim>\<open>Filter.__call__\<close>, one pass of its loop:
  \<^verbatim>\<open>
    element = (yield)
    result = self.process(element)
    if result is not None:
        self.send_next(result)      # if self.next is not None: self.next.send(element)
  \<close>
  Sending to a finished generator raises \<^verbatim>\<open>StopIteration\<close>, sending to a running one
  raises \<^verbatim>\<open>ValueError\<close> (generator already executing). An exception raised in the
  body, by \<^verbatim>\<open>process\<close> or by the send to the next generator, finishes this generator and
  reaches the sender. The result is the new state, the events in order, and the
  exception that reached the sender, if any.
\<close>

function send :: "nat \<Rightarrow> element \<Rightarrow> state \<Rightarrow> state \<times> event list \<times> error option" where
  "send g e s =
     (case lookup (gens s) g of
        None \<Rightarrow> (s, [], Some BadReference)
      | Some gen \<Rightarrow>
     (case status gen of
        Finished \<Rightarrow> (s, [], Some StopIteration)
      | Running \<Rightarrow> (s, [], Some ValueError)
      | Suspended \<Rightarrow>
     (case lookup (fltrs s) (owner gen) of
        None \<Rightarrow> (set_status g Finished s, [], Some BadReference)
      | Some self \<Rightarrow>
     (case Filter_process (streams s) (kind self) e of
        (Inl err, k) \<Rightarrow>
          (set_status g Finished (set_kind (owner gen) k s), [], Some (leave_generator err))
      | (Inr None, k) \<Rightarrow>
          (set_kind (owner gen) k s, [Drop (owner gen)], None)
      | (Inr (Some result), k) \<Rightarrow>
     (case nxt self of
        None \<Rightarrow> (set_kind (owner gen) k s, [Emit (owner gen) result], None)
      | Some n \<Rightarrow>
     (case send n result (set_status g Running (set_kind (owner gen) k s)) of
        (s', tr, Some err) \<Rightarrow>
          (set_status g Finished s', Emit (owner gen) result # tr, Some (leave_generator err))
      | (s', tr, None) \<Rightarrow>
          (set_status g Suspended s', Emit (owner gen) result # tr, None)))))))"
  by pat_completeness auto

termination send
proof -
  have count_update:
    "length (filter (\<lambda>g. status g = Suspended) (xs[g := y]))
       < length (filter (\<lambda>g. status g = Suspended) xs)"
    if "g < length xs" and "status (xs ! g) = Suspended" and "status y \<noteq> Suspended"
    for xs :: "generator list" and g y
  proof -
    have "xs = take g xs @ xs ! g # drop (Suc g) xs"
      using that(1) by (simp add: id_take_nth_drop)
    then have "length (filter (\<lambda>g. status g = Suspended) xs)
        = length (filter (\<lambda>g. status g = Suspended) (take g xs)) + 1
          + length (filter (\<lambda>g. status g = Suspended) (drop (Suc g) xs))"
      using that(2) by (metis (mono_tags, lifting) add.assoc filter.simps(2) filter_append
          length_Cons length_append plus_1_eq_Suc)
    moreover have "length (filter (\<lambda>g. status g = Suspended) (xs[g := y]))
        = length (filter (\<lambda>g. status g = Suspended) (take g xs))
          + length (filter (\<lambda>g. status g = Suspended) (drop (Suc g) xs))"
      using that(1,3) by (simp add: upd_conv_take_nth_drop)
    ultimately show ?thesis by simp
  qed
  have running:
    "suspended_count (set_status g Running (set_kind a k s)) < suspended_count s"
    if "lookup (gens s) g = Some gen" and "status gen = Suspended" for s g gen a k
  proof -
    from that have "g < length (gens s)" and "status (gens s ! g) = Suspended"
      by (auto simp: lookup_def split: if_splits)
    then show ?thesis
      unfolding suspended_count_def set_status_def set_kind_def
      by (simp add: count_update)
  qed
  show ?thesis
    by (relation "measure (\<lambda>(g, e, s). suspended_count s)") (auto simp: running)
qed

declare send.simps [simp del]

section \<open>Building and running streams\<close>

text \<open>
  \<^verbatim>\<open>Stream.__init__\<close>: the identity is the argument, or \<^verbatim>\<open>str(uuid.uuid1())\<close> when
  the argument is \<^verbatim>\<open>None\<close>; \<open>uuid\<close> is the string that call produces. The result is
  the address of the new stream.
\<close>

definition Stream_init :: "string option \<Rightarrow> string \<Rightarrow> state \<Rightarrow> nat \<times> state" where
  "Stream_init sid uuid s =
     (length (streams s),
      s\<lparr>streams := streams s @
          [\<lparr>head = None, filters = [],
            ident = (case sid of Some i \<Rightarrow> i | None \<Rightarrow> uuid)\<rparr>]\<rparr>)"

text \<open>\<^verbatim>\<open>Filter.__init__\<close>: a new filter object, \<^verbatim>\<open>next\<close> is \<^verbatim>\<open>None\<close>.\<close>

definition Filter_init :: "kind \<Rightarrow> state \<Rightarrow> nat \<times> state" where
  "Filter_init k s = (length (fltrs s), s\<lparr>fltrs := fltrs s @ [\<lparr>kind = k, nxt = None\<rparr>]\<rparr>)"

text \<open>
  \<^verbatim>\<open>Stream.append\<close>: \<^verbatim>\<open>it = fltr(); next(it)\<close> makes a generator of the filter and
  runs it to its first \<^verbatim>\<open>yield\<close>; it becomes the head of an empty stream, or the
  \<^verbatim>\<open>next\<close> of the last appended filter.
\<close>

definition Stream_append :: "nat \<Rightarrow> nat \<Rightarrow> state \<Rightarrow> error + state" where
  "Stream_append st a s =
     (case lookup (streams s) st of
        None \<Rightarrow> Inl BadReference
      | Some self \<Rightarrow>
          let it = length (gens s);
              s1 = s\<lparr>gens := gens s @ [\<lparr>owner = a, status = Suspended\<rparr>]\<rparr>
          in (case head self of
                None \<Rightarrow>
                  Inr (s1\<lparr>streams := (streams s1)
                         [st := self\<lparr>head := Some it, filters := filters self @ [a]\<rparr>]\<rparr>)
              | Some h \<Rightarrow>
                  if filters self = [] then Inl IndexError
                  else (case lookup (fltrs s1) (last (filters self)) of
                          None \<Rightarrow> Inl BadReference
                        | Some prev \<Rightarrow>
                            Inr (s1\<lparr>fltrs := (fltrs s1)
                                       [last (filters self) := prev\<lparr>nxt := Some it\<rparr>],
                                     streams := (streams s1)
                                       [st := self\<lparr>filters := filters self @ [a]\<rparr>]\<rparr>))))"

text \<open>\<^verbatim>\<open>Stream.map\<close> and \<^verbatim>\<open>Stream.reduce\<close>; both return \<^verbatim>\<open>self\<close>, the address \<open>st\<close>.\<close>

definition Stream_map :: "(val \<Rightarrow> error + val) \<Rightarrow> nat \<Rightarrow> state \<Rightarrow> error + state" where
  "Stream_map f st s = (case Filter_init (Mapper f) s of (a, s1) \<Rightarrow> Stream_append st a s1)"

definition Stream_reduce ::
  "(val \<Rightarrow> val \<Rightarrow> error + val) \<Rightarrow> val \<Rightarrow> nat \<Rightarrow> state \<Rightarrow> error + state" where
  "Stream_reduce f initial st s =
     (case Filter_init (Reducer f initial initial) s of (a, s1) \<Rightarrow> Stream_append st a s1)"

text \<open>\<^verbatim>\<open>Stream.process\<close>: nothing happens when there is no head.\<close>

definition Stream_process :: "val \<Rightarrow> nat \<Rightarrow> state \<Rightarrow> state \<times> event list \<times> error option" where
  "Stream_process d st s =
     (case lookup (streams s) st of
        None \<Rightarrow> (s, [], Some BadReference)
      | Some self \<Rightarrow>
          (case head self of
             None \<Rightarrow> (s, [], None)
           | Some h \<Rightarrow> send h \<lparr>stream_id = ident self, data = d\<rparr> s))"

text \<open>
  \<^verbatim>\<open>Joiner.__init__\<close>: two caches of size \<^verbatim>\<open>max_size\<close> and the three streams.
\<close>

definition Joiner_init :: "nat \<Rightarrow> nat \<Rightarrow> nat \<Rightarrow> int \<Rightarrow> error + joiner" where
  "Joiner_init l r t n =
     (case lrucache_init n of Inl err \<Rightarrow> Inl err | Inr cl \<Rightarrow>
      case lrucache_init n of Inl err \<Rightarrow> Inl err | Inr cr \<Rightarrow>
      Inr \<lparr>cache_left = cl, cache_right = cr, left = l, right = r, target = t, max_size = n\<rparr>)"

text \<open>
  \<^verbatim>\<open>join\<close>: a new stream (identity \<open>uuid\<close>), one \<^verbatim>\<open>Joiner\<close>, appended to the left, the
  right and the new stream in this order. The result is the address of the new stream.
  \<^verbatim>\<open>join(left, right)\<close> is \<open>join left right 128\<close>.
\<close>

definition join :: "nat \<Rightarrow> nat \<Rightarrow> int \<Rightarrow> string \<Rightarrow> state \<Rightarrow> error + nat \<times> state" where
  "join l r n uuid s =
     (case Stream_init None uuid s of (new_stream, s1) \<Rightarrow>
      case Joiner_init l r new_stream n of Inl err \<Rightarrow> Inl err | Inr j \<Rightarrow>
      case Filter_init (Joiner j) s1 of (joiner, s2) \<Rightarrow>
      case Stream_append l joiner s2 of Inl err \<Rightarrow> Inl err | Inr s3 \<Rightarrow>
      case Stream_append r joiner s3 of Inl err \<Rightarrow> Inl err | Inr s4 \<Rightarrow>
      case Stream_append new_stream joiner s4 of Inl err \<Rightarrow> Inl err | Inr s5 \<Rightarrow>
      Inr (new_stream, s5))"

section \<open>Sources\<close>

text \<open>
  \<^verbatim>\<open>class Source\<close>: \<^verbatim>\<open>_stream\<close> is the attached stream or \<^verbatim>\<open>None\<close>. The warnings
  given to the logger are collected in a list.
\<close>

record source =
  attached :: "nat option"

definition Source_init :: source where
  "Source_init = \<lparr>attached = None\<rparr>"

definition attach :: "nat \<Rightarrow> source \<Rightarrow> source" where
  "attach st src = src\<lparr>attached := Some st\<rparr>"

text \<open>\<^verbatim>\<open>Source._process\<close>: the result carries the warnings logged.\<close>

definition Source_process ::
  "source \<Rightarrow> val \<Rightarrow> state \<Rightarrow> (state \<times> event list \<times> error option) \<times> string list" where
  "Source_process src element s =
     (case attached src of
        Some st \<Rightarrow> (Stream_process element st s, [])
      | None \<Rightarrow> ((s, [], None), [''Received element with no attached stream.  Discarding.'']))"

text \<open>
  \<^verbatim>\<open>IterableSource.start\<close>: \<^verbatim>\<open>for e in self.__itr: self._stream.process(e)\<close>. The
  attribute access on \<^verbatim>\<open>None\<close> raises \<^verbatim>\<open>AttributeError\<close>; an exception ends the loop.
  The result is the state, the events of each delivery, the warnings logged and the
  exception, if any.
\<close>

fun IterableSource_start ::
  "source \<Rightarrow> val list \<Rightarrow> state \<Rightarrow> state \<times> event list list \<times> string list \<times> error option" where
  "IterableSource_start src [] s = (s, [], [], None)"
| "IterableSource_start src (e # itr) s =
     (case attached src of
        None \<Rightarrow> (s, [], [], Some AttributeError)
      | Some st \<Rightarrow>
          (case Stream_process e st s of
             (s', tr, Some err) \<Rightarrow> (s', [tr], [], Some err)
           | (s', tr, None) \<Rightarrow>
               (case IterableSource_start src itr s' of
                  (s'', trs, warnings, r) \<Rightarrow> (s'', tr # trs, warnings, r))))"

text \<open>
  \<^verbatim>\<open>KafkaSource.start\<close>: \<^verbatim>\<open>for record in consumer: self._process(record.value)\<close>, over
  the values of the records the consumer hands over.
\<close>

fun KafkaSource_start ::
  "source \<Rightarrow> val list \<Rightarrow> state \<Rightarrow> state \<times> event list list \<times> string list \<times> error option" where
  "KafkaSource_start src [] s = (s, [], [], None)"
| "KafkaSource_start src (v # records) s =
     (case Source_process src v s of
        ((s', tr, Some err), w) \<Rightarrow> (s', [tr], w, Some err)
      | ((s', tr, None), w) \<Rightarrow>
          (case KafkaSource_start src records s' of
             (s'', trs, warnings, r) \<Rightarrow> (s'', tr # trs, w @ warnings, r)))"

text \<open>
  A sequence of calls \<^verbatim>\<open>stream.process(value)\<close>, each on the stream named; it stops at
  the first exception. The result holds the events of each call.
\<close>

fun feed ::
  "(nat \<times> val) list \<Rightarrow> state \<Rightarrow> state \<times> event list list \<times> error option" where
  "feed [] s = (s, [], None)"
| "feed ((st, d) # ds) s =
     (case Stream_process d st s of
        (s', tr, Some err) \<Rightarrow> (s', [tr], Some err)
      | (s', tr, None) \<Rightarrow>
          (case feed ds s' of (s'', trs, r) \<Rightarrow> (s'', tr # trs, r)))"

text \<open>
  The program \<^verbatim>\<open>left = Stream(lid); right = Stream(rid); target = join(left, right, n)\<close>
  run in the empty store, as in \<^verbatim>\<open>test_join\<close>; \<open>tid\<close> is the identity generated for
  the target. The result holds the addresses of the three streams.
\<close>

definition joined ::
  "string \<Rightarrow> string \<Rightarrow> int \<Rightarrow> string \<Rightarrow> error + nat \<times> nat \<times> nat \<times> state" where
  "joined lid rid n tid =
     (case Stream_init (Some lid) [] new_state of (l, s1) \<Rightarrow>
      case Stream_init (Some rid) [] s1 of (r, s2) \<Rightarrow>
      case join l r n tid s2 of
        Inl err \<Rightarrow> Inl err
      | Inr (t, s3) \<Rightarrow> Inr (l, r, t, s3))"

section \<open>The functions of the test suite\<close>

text \<open>
  \<^verbatim>\<open>times_2\<close> of \<^verbatim>\<open>test_stream.py\<close> returns \<^verbatim>\<open>element * 2\<close>: an integer is doubled, a
  string or a tuple is repeated, \<^verbatim>\<open>None * 2\<close> raises \<^verbatim>\<open>TypeError\<close>.
\<close>

fun times_2 :: "val \<Rightarrow> error + val" where
  "times_2 (VInt n) = Inr (VInt (n * 2))"
| "times_2 (VStr s) = Inr (VStr (s @ s))"
| "times_2 (VTuple xs) = Inr (VTuple (xs @ xs))"
| "times_2 VNone = Inl TypeError"

text \<open>
  \<^verbatim>\<open>add\<close> of \<^verbatim>\<open>test_stream.py\<close> returns \<^verbatim>\<open>element + acc\<close>: the sum of two integers,
  the concatenation of two strings or of two tuples, \<^verbatim>\<open>TypeError\<close> otherwise.
\<close>

fun add :: "val \<Rightarrow> val \<Rightarrow> error + val" where
  "add (VInt n) (VInt m) = Inr (VInt (n + m))"
| "add (VStr s) (VStr t) = Inr (VStr (s @ t))"
| "add (VTuple xs) (VTuple ys) = Inr (VTuple (xs @ ys))"
| "add x acc = Inl TypeError"

section \<open>Programs and reference functions\<close>

text \<open>
  The program \<^verbatim>\<open>stream = Stream(sid).map(f1). ... .map(fn)\<close> run in the empty store.
\<close>

fun map_all :: "(val \<Rightarrow> error + val) list \<Rightarrow> nat \<Rightarrow> state \<Rightarrow> error + state" where
  "map_all [] st s = Inr s"
| "map_all (f # fs) st s =
     (case Stream_map f st s of Inl err \<Rightarrow> Inl err | Inr s' \<Rightarrow> map_all fs st s')"

definition mapped :: "string \<Rightarrow> (val \<Rightarrow> error + val) list \<Rightarrow> error + nat \<times> state" where
  "mapped sid fs =
     (case Stream_init (Some sid) [] new_state of (st, s) \<Rightarrow>
      case map_all fs st s of Inl err \<Rightarrow> Inl err | Inr s' \<Rightarrow> Inr (st, s'))"

text \<open>
  A call of \<^verbatim>\<open>map(f)\<close> or of \<^verbatim>\<open>reduce(f, initial)\<close>, and the filter object each
  appends: \<^verbatim>\<open>Reducer.__init__\<close> sets \<^verbatim>\<open>__acc\<close> to \<^verbatim>\<open>initial\<close>.
\<close>

datatype stage = Map "val \<Rightarrow> error + val" | Reduce "val \<Rightarrow> val \<Rightarrow> error + val" val

fun stage_kind :: "stage \<Rightarrow> kind" where
  "stage_kind (Map f) = Mapper f"
| "stage_kind (Reduce f initial) = Reducer f initial initial"

text \<open>
  The program \<^verbatim>\<open>stream = Stream(sid)\<close> followed by the given calls of \<^verbatim>\<open>map\<close> and
  \<^verbatim>\<open>reduce\<close> on it, in order, run in the empty store.
\<close>

fun build_all :: "stage list \<Rightarrow> nat \<Rightarrow> state \<Rightarrow> error + state" where
  "build_all [] st s = Inr s"
| "build_all (Map f # sts) st s =
     (case Stream_map f st s of Inl err \<Rightarrow> Inl err | Inr s' \<Rightarrow> build_all sts st s')"
| "build_all (Reduce f initial # sts) st s =
     (case Stream_reduce f initial st s of Inl err \<Rightarrow> Inl err | Inr s' \<Rightarrow> build_all sts st s')"

definition built :: "string \<Rightarrow> stage list \<Rightarrow> error + nat \<times> state" where
  "built sid sts =
     (case Stream_init (Some sid) [] new_state of (st, s) \<Rightarrow>
      case build_all sts st s of Inl err \<Rightarrow> Inl err | Inr s' \<Rightarrow> Inr (st, s'))"

text \<open>
  The relay as the spec describes it, plain synchronous calls between the stages: the
  \<^verbatim>\<open>process\<close> methods of a list of filters called one after the other, each on the
  element the one before returned, until one returns \<^verbatim>\<open>None\<close> or raises. \<open>i\<close> is the
  address of the first filter. The result holds the filters after the calls, the events
  and the exception. This is the reference the generator relay \<open>send\<close> is compared with.
\<close>

fun relay ::
  "stream list \<Rightarrow> kind list \<Rightarrow> nat \<Rightarrow> element \<Rightarrow> kind list \<times> event list \<times> error option" where
  "relay ss [] i e = ([], [], None)"
| "relay ss (k # ks) i e =
     (case Filter_process ss k e of
        (Inl err, k') \<Rightarrow> (k' # ks, [], Some (leave_generator err))
      | (Inr None, k') \<Rightarrow> (k' # ks, [Drop i], None)
      | (Inr (Some r), k') \<Rightarrow>
          (case relay ss ks (Suc i) r of
             (ks', tr, Some err) \<Rightarrow> (k' # ks', Emit i r # tr, Some (leave_generator err))
           | (ks', tr, None) \<Rightarrow> (k' # ks', Emit i r # tr, None)))"

text \<open>The same for a sequence of inputs of the stream \<open>sid\<close>, up to the first exception.\<close>

fun relay_all ::
  "stream list \<Rightarrow> kind list \<Rightarrow> string \<Rightarrow> val list
     \<Rightarrow> kind list \<times> event list list \<times> error option" where
  "relay_all ss ks sid [] = (ks, [], None)"
| "relay_all ss ks sid (x # xs) =
     (case relay ss ks 0 \<lparr>stream_id = sid, data = x\<rparr> of
        (ks', tr, Some err) \<Rightarrow> (ks', [tr], Some err)
      | (ks', tr, None) \<Rightarrow>
          (case relay_all ss ks' sid xs of (ks'', trs, r) \<Rightarrow> (ks'', tr # trs, r)))"

text \<open>
  The payload that reaches filter \<open>p\<close> of a chain in a call of \<^verbatim>\<open>process\<close> with input
  \<open>x\<close> and events \<open>tr\<close>: the input itself for the head, else what filter \<open>p - 1\<close>
  returned.
\<close>

fun payload :: "event \<Rightarrow> val" where
  "payload (Emit i e) = data e"
| "payload (Drop i) = VNone"

definition reaching :: "nat \<Rightarrow> val \<times> event list \<Rightarrow> val" where
  "reaching p xt = (if p = 0 then fst xt else payload (snd xt ! (p - 1)))"

text \<open>A filter that is a \<^verbatim>\<open>Mapper\<close> or a \<^verbatim>\<open>Reducer\<close>.\<close>

fun plain :: "kind \<Rightarrow> bool" where
  "plain (Joiner j) = False"
| "plain k = True"

text \<open>
  The functions of a list composed left to right, the first applied first; an exception
  of one of them is the result. \<open>outputs\<close> lists the value each function returned, up to
  the first exception.
\<close>

fun compose :: "(val \<Rightarrow> error + val) list \<Rightarrow> val \<Rightarrow> error + val" where
  "compose [] x = Inr x"
| "compose (f # fs) x = (case f x of Inl err \<Rightarrow> Inl err | Inr y \<Rightarrow> compose fs y)"

fun outputs :: "(val \<Rightarrow> error + val) list \<Rightarrow> val \<Rightarrow> val list" where
  "outputs [] x = []"
| "outputs (f # fs) x = (case f x of Inl err \<Rightarrow> [] | Inr y \<Rightarrow> y # outputs fs y)"

text \<open>
  The fold of \<open>f\<close> over the inputs in order, each step \<^verbatim>\<open>acc = f(x, acc)\<close>; an
  exception of \<open>f\<close> is the result.
\<close>

fun fold_all :: "(val \<Rightarrow> val \<Rightarrow> error + val) \<Rightarrow> val \<Rightarrow> val list \<Rightarrow> error + val" where
  "fold_all f acc [] = Inr acc"
| "fold_all f acc (x # xs) =
     (case f x acc of Inl err \<Rightarrow> Inl err | Inr acc' \<Rightarrow> fold_all f acc' xs)"

text \<open>Successive calls of \<^verbatim>\<open>process\<close> on one \<^verbatim>\<open>Joiner\<close>, with the result of each.\<close>

fun Joiner_run ::
  "stream list \<Rightarrow> joiner \<Rightarrow> element list \<Rightarrow> (error + element option) list \<times> joiner" where
  "Joiner_run ss j [] = ([], j)"
| "Joiner_run ss j (e # es) =
     (case Joiner_process ss j e of (r, j') \<Rightarrow>
      case Joiner_run ss j' es of (rs, j'') \<Rightarrow> (r # rs, j''))"

text \<open>The element that reaches a \<^verbatim>\<open>Joiner\<close> from the stream \<open>sid\<close> with payload \<^verbatim>\<open>(key, value)\<close>.\<close>

definition arrival :: "string \<Rightarrow> val \<times> val \<Rightarrow> element" where
  "arrival sid kv = \<lparr>stream_id = sid, data = VTuple [fst kv, snd kv]\<rparr>"

text \<open>
  What \<^verbatim>\<open>Joiner.__init__\<close> establishes: a positive \<^verbatim>\<open>max_size\<close>, which is the capacity
  of both caches, and no cache holding more entries than that.
\<close>

definition bounded :: "joiner \<Rightarrow> bool" where
  "bounded j \<longleftrightarrow>
     0 < max_size j
     \<and> capacity (cache_left j) = nat (max_size j)
     \<and> capacity (cache_right j) = nat (max_size j)
     \<and> length (entries (cache_left j)) \<le> nat (max_size j)
     \<and> length (entries (cache_right j)) \<le> nat (max_size j)"

subsection \<open>The stores these programs build\<close>

definition joined_state :: "string \<Rightarrow> string \<Rightarrow> int \<Rightarrow> string \<Rightarrow> state" where
  "joined_state lid rid n tid =
     \<lparr>streams = [\<lparr>head = Some 0, filters = [0], ident = lid\<rparr>,
                 \<lparr>head = Some 1, filters = [0], ident = rid\<rparr>,
                 \<lparr>head = Some 2, filters = [0], ident = tid\<rparr>],
      fltrs = [\<lparr>kind = Joiner \<lparr>cache_left = \<lparr>entries = [], capacity = nat n\<rparr>,
                                 cache_right = \<lparr>entries = [], capacity = nat n\<rparr>,
                                 left = 0, right = 1, target = 2, max_size = n\<rparr>,
                nxt = None\<rparr>],
      gens = [\<lparr>owner = 0, status = Suspended\<rparr>, \<lparr>owner = 0, status = Suspended\<rparr>,
              \<lparr>owner = 0, status = Suspended\<rparr>]\<rparr>"

definition chain_fltrs :: "(val \<Rightarrow> error + val) list \<Rightarrow> fltr list" where
  "chain_fltrs fs =
     map (\<lambda>i. \<lparr>kind = Mapper (fs ! i),
               nxt = (if Suc i < length fs then Some (Suc i) else None)\<rparr>) [0..<length fs]"

definition chain_gens :: "nat \<Rightarrow> nat \<Rightarrow> generator list" where
  "chain_gens n i =
     map (\<lambda>j. \<lparr>owner = j, status = (if j < i then Running else Suspended)\<rparr>) [0..<n]"

text \<open>
  The store of \<open>mapped sid fs\<close> while the generators below \<open>i\<close> are running: filter \<open>i\<close>
  is the mapper of the \<open>i\<close>-th function, its \<^verbatim>\<open>next\<close> is generator \<open>i + 1\<close>.
\<close>

definition chain_state :: "string \<Rightarrow> (val \<Rightarrow> error + val) list \<Rightarrow> nat \<Rightarrow> state" where
  "chain_state sid fs i =
     \<lparr>streams = [\<lparr>head = (if fs = [] then None else Some 0),
                  filters = [0..<length fs], ident = sid\<rparr>],
      fltrs = chain_fltrs fs,
      gens = chain_gens (length fs) i\<rparr>"

definition kchain_fltrs :: "kind list \<Rightarrow> fltr list" where
  "kchain_fltrs ks =
     map (\<lambda>i. \<lparr>kind = ks ! i,
               nxt = (if Suc i < length ks then Some (Suc i) else None)\<rparr>) [0..<length ks]"

text \<open>
  The store of a stream whose filters are \<open>ks\<close>, appended in this order, while the
  generators below \<open>i\<close> are running.
\<close>

definition kchain_state :: "string \<Rightarrow> kind list \<Rightarrow> nat \<Rightarrow> state" where
  "kchain_state sid ks i =
     \<lparr>streams = [\<lparr>head = (if ks = [] then None else Some 0),
                  filters = [0..<length ks], ident = sid\<rparr>],
      fltrs = kchain_fltrs ks,
      gens = chain_gens (length ks) i\<rparr>"

text \<open>A \<^verbatim>\<open>Joiner\<close> with the given cache contents, between the streams 0, 1 and 2.\<close>

definition joiner_with :: "(val \<times> val) list \<Rightarrow> (val \<times> val) list \<Rightarrow> int \<Rightarrow> joiner" where
  "joiner_with cl cr n =
     \<lparr>cache_left = \<lparr>entries = cl, capacity = nat n\<rparr>,
      cache_right = \<lparr>entries = cr, capacity = nat n\<rparr>,
      left = 0, right = 1, target = 2, max_size = n\<rparr>"


section \<open>Evaluating the programs\<close>

lemmas build_defs = joined_def join_def Joiner_init_def Stream_init_def Filter_init_def
  Stream_append_def Stream_map_def Stream_reduce_def lrucache_init_def lookup_def
  new_state_def Let_def

lemmas run_defs = Stream_process_def send.simps Joiner_process_def Mapper_process_def
  Reducer_process_def lru_get_def lru_set_def set_status_def set_kind_def lookup_def

lemma joined_eq:
  "joined lid rid n tid =
     (if 0 < n then Inr (0, 1, 2, joined_state lid rid n tid) else Inl AssertionError)"
  by (simp add: build_defs joined_state_def)

lemma joined_InrD:
  "joined lid rid n tid = Inr (l, r, t, s) \<Longrightarrow>
     0 < n \<and> l = 0 \<and> r = 1 \<and> t = 2 \<and> s = joined_state lid rid n tid"
  by (simp add: joined_eq split: if_splits)

section \<open>The entry point of an empty stream\<close>

text \<open>
  Claim C8. Calling \<^verbatim>\<open>process\<close> on a stream to which no filter has been appended (its
  head is \<^verbatim>\<open>None\<close>) raises nothing, runs no filter and leaves the whole store as it was.
\<close>

theorem process_empty_chain:
  assumes "lookup (streams s) st = Some self" and "head self = None"
  shows "Stream_process x st s = (s, [], None)"
  using assms by (simp add: Stream_process_def)

text \<open>The stream made by \<^verbatim>\<open>Stream()\<close> in the empty store is such a stream.\<close>

theorem process_empty_chain_witness:
  "lookup (streams (snd (Stream_init None ''u'' new_state))) 0
     = Some \<lparr>head = None, filters = [], ident = ''u''\<rparr>
   \<and> Stream_process (VInt 4) 0 (snd (Stream_init None ''u'' new_state))
     = (snd (Stream_init None ''u'' new_state), [], None)"
proof -
  have h: "lookup (streams (snd (Stream_init None ''u'' new_state))) 0
     = Some \<lparr>head = None, filters = [], ident = ''u''\<rparr>"
    by (simp add: Stream_init_def new_state_def lookup_def)
  show ?thesis using h process_empty_chain [OF h, of "VInt 4"] by simp
qed

section \<open>A source without a stream\<close>

text \<open>
  Claim C6 says that a source with no attached stream, started on a finite input,
  completes without an exception and logs a warning for each discarded value. The guard
  and the warning are in \<^verbatim>\<open>Source._process\<close>, which \<^verbatim>\<open>KafkaSource.start\<close> calls;
  \<^verbatim>\<open>IterableSource.start\<close> calls \<^verbatim>\<open>self._stream.process(e)\<close> itself, so on the first
  value it raises \<^verbatim>\<open>AttributeError\<close>, with no warning and the rest of the input unread.
\<close>

theorem IterableSource_unattached_raises:
  "IterableSource_start Source_init [VInt 1, VInt 2] new_state
     = (new_state, [], [], Some AttributeError)
   \<and> KafkaSource_start Source_init [VInt 1, VInt 2] new_state
     = (new_state, [ [], [] ],
        [''Received element with no attached stream.  Discarding.'',
         ''Received element with no attached stream.  Discarding.''], None)"
  by (simp add: Source_init_def Source_process_def)

section \<open>The join of two streams\<close>

subsection \<open>A cached \<^verbatim>\<open>None\<close>\<close>

lemma map_of_lru_set: "map_of (entries (lru_set k v c)) k = Some v"
  by (simp add: lru_set_def)

text \<open>
  Claim C10. When the value cached on one side for a key is \<^verbatim>\<open>None\<close>, an arrival with
  that key on the opposite side is not a match: \<^verbatim>\<open>Joiner.process\<close> returns \<^verbatim>\<open>None\<close> and
  stores the arriving value under the key in the arriving side's own cache. An arrival
  is a left one when it carries the identity of the left stream, a right one otherwise.
\<close>

theorem none_value_is_no_match:
  assumes "lookup ss (left j) = Some l"
  shows "(map_of (entries (cache_left j)) k = Some VNone \<and> sid \<noteq> ident l \<longrightarrow>
            fst (Joiner_process ss j (arrival sid (k, v))) = Inr None
            \<and> map_of (entries (cache_right (snd (Joiner_process ss j (arrival sid (k, v)))))) k
              = Some v)
       \<and> (map_of (entries (cache_right j)) k = Some VNone \<longrightarrow>
            fst (Joiner_process ss j (arrival (ident l) (k, v))) = Inr None
            \<and> map_of (entries (cache_left (snd (Joiner_process ss j (arrival (ident l) (k, v)))))) k
              = Some v)"
  using assms by (simp add: Joiner_process_def arrival_def lru_get_def map_of_lru_set)

theorem none_value_is_no_match_witness:
  "fst (Joiner_process (streams (joined_state ''l'' ''r'' 128 ''t''))
          (joiner_with [(VInt 1, VNone)] [(VInt 1, VNone)] 128)
          (arrival ''r'' (VInt 1, VInt 2))) = Inr None
   \<and> map_of (entries (cache_right (snd (Joiner_process (streams (joined_state ''l'' ''r'' 128 ''t''))
          (joiner_with [(VInt 1, VNone)] [(VInt 1, VNone)] 128)
          (arrival ''r'' (VInt 1, VInt 2)))))) (VInt 1) = Some (VInt 2)
   \<and> fst (Joiner_process (streams (joined_state ''l'' ''r'' 128 ''t''))
          (joiner_with [(VInt 1, VNone)] [(VInt 1, VNone)] 128)
          (arrival ''l'' (VInt 1, VInt 2))) = Inr None
   \<and> map_of (entries (cache_left (snd (Joiner_process (streams (joined_state ''l'' ''r'' 128 ''t''))
          (joiner_with [(VInt 1, VNone)] [(VInt 1, VNone)] 128)
          (arrival ''l'' (VInt 1, VInt 2)))))) (VInt 1) = Some (VInt 2)"
proof -
  have h: "lookup (streams (joined_state ''l'' ''r'' 128 ''t''))
             (left (joiner_with [(VInt 1, VNone)] [(VInt 1, VNone)] 128))
           = Some \<lparr>head = Some 0, filters = [0], ident = ''l''\<rparr>"
    by (simp add: joined_state_def joiner_with_def lookup_def)
  have c: "map_of (entries (cache_left (joiner_with [(VInt 1, VNone)] [(VInt 1, VNone)] 128)))
             (VInt 1) = Some VNone"
    "map_of (entries (cache_right (joiner_with [(VInt 1, VNone)] [(VInt 1, VNone)] 128)))
             (VInt 1) = Some VNone"
    by (simp_all add: joiner_with_def)
  show ?thesis
    using c none_value_is_no_match [OF h, of "VInt 1" "''r''" "VInt 2"] by simp
qed

subsection \<open>A match\<close>

text \<open>
  Claim C1 says that feeding \<^verbatim>\<open>(k, a)\<close> to the left stream and then \<^verbatim>\<open>(k, b)\<close> to the
  right stream emits one joined element \<^verbatim>\<open>(k, (a, b))\<close> after the second feed. The code
  does not do so when \<open>a\<close> is \<^verbatim>\<open>None\<close>. On the feed of \<^verbatim>\<open>(1, None)\<close> to the left stream
  the \<^verbatim>\<open>Joiner\<close> (filter 0) stores the element "for a possible future match", as its
  docstring says; on the feed of \<^verbatim>\<open>(1, 2)\<close> to the right stream the test
  \<^verbatim>\<open>cached is not None\<close> takes the stored \<^verbatim>\<open>None\<close> for a missing key, and nothing is
  emitted. Fed in the other order, the same two elements are joined.
\<close>

theorem join_none_value_not_joined:
  "joined ''l'' ''r'' 128 ''t'' = Inr (0, 1, 2, joined_state ''l'' ''r'' 128 ''t'')
   \<and> snd (feed [(0, VTuple [VInt 1, VNone]), (1, VTuple [VInt 1, VInt 2])]
            (joined_state ''l'' ''r'' 128 ''t''))
     = ([ [Drop 0], [Drop 0] ], None)
   \<and> snd (feed [(1, VTuple [VInt 1, VInt 2]), (0, VTuple [VInt 1, VNone])]
            (joined_state ''l'' ''r'' 128 ''t''))
     = ([ [Drop 0],
          [Emit 0 \<lparr>stream_id = ''t'', data = VTuple [VInt 1, VTuple [VNone, VInt 2]]\<rparr>] ],
        None)"
  by (simp add: joined_eq joined_state_def run_defs)

subsection \<open>A second match\<close>

text \<open>
  Claim C2 says that a matching lookup removes the entry from the opposite cache, so
  that a cached value cannot satisfy a second match. \<^verbatim>\<open>Joiner.process\<close> reads the cache
  with \<^verbatim>\<open>get\<close> and never deletes: after left \<^verbatim>\<open>(1, 1)\<close> and right \<^verbatim>\<open>(1, 2)\<close>, a further
  right \<^verbatim>\<open>(1, 3)\<close> is joined with the same cached left value.
\<close>

theorem match_consumes_counterexample:
  "joined ''l'' ''r'' 128 ''t'' = Inr (0, 1, 2, joined_state ''l'' ''r'' 128 ''t'')
   \<and> snd (feed [(0, VTuple [VInt 1, VInt 1]), (1, VTuple [VInt 1, VInt 2]),
                (1, VTuple [VInt 1, VInt 3])]
            (joined_state ''l'' ''r'' 128 ''t''))
     = ([ [Drop 0],
         [Emit 0 \<lparr>stream_id = ''t'', data = VTuple [VInt 1, VTuple [VInt 1, VInt 2] ]\<rparr>],
         [Emit 0 \<lparr>stream_id = ''t'', data = VTuple [VInt 1, VTuple [VInt 1, VInt 3] ]\<rparr>] ],
        None)"
  by (simp add: joined_eq joined_state_def run_defs)

lemma match_left_step:
  assumes "lookup ss (left j) = Some l" and "lookup ss (target j) = Some t" and "c \<noteq> VNone"
    and "map_of (entries (cache_right j)) k = Some c"
  shows "Joiner_process ss j (arrival (ident l) (k, v))
         = (Inr (Some \<lparr>stream_id = ident t, data = VTuple [k, VTuple [v, c] ]\<rparr>),
            j\<lparr>cache_right := (cache_right j)
                 \<lparr>entries := (k, c) # filter (\<lambda>p. fst p \<noteq> k) (entries (cache_right j))\<rparr>\<rparr>)"
  using assms by (simp add: Joiner_process_def arrival_def lru_get_def)

lemma match_right_step:
  assumes "lookup ss (left j) = Some l" and "lookup ss (target j) = Some t" and "c \<noteq> VNone"
    and "map_of (entries (cache_left j)) k = Some c" and "sid \<noteq> ident l"
  shows "Joiner_process ss j (arrival sid (k, v))
         = (Inr (Some \<lparr>stream_id = ident t, data = VTuple [k, VTuple [c, v] ]\<rparr>),
            j\<lparr>cache_left := (cache_left j)
                 \<lparr>entries := (k, c) # filter (\<lambda>p. fst p \<noteq> k) (entries (cache_left j))\<rparr>\<rparr>)"
  using assms by (simp add: Joiner_process_def arrival_def lru_get_def)

lemma map_of_filter_other:
  "k' \<noteq> k \<Longrightarrow> map_of (filter (\<lambda>p. fst p \<noteq> k) es) k' = map_of es k'"
  by (induction es) auto

lemma map_of_refresh:
  assumes "map_of es k = Some c"
  shows "map_of ((k, c) # filter (\<lambda>p. fst p \<noteq> k) es) = map_of es"
proof
  fix k'
  show "map_of ((k, c) # filter (\<lambda>p. fst p \<noteq> k) es) k' = map_of es k'"
    using assms by (cases "k' = k") (simp_all add: map_of_filter_other)
qed

text \<open>
  Claim C2, amended. When an arrival on one side finds its key in the opposite cache with
  a value \<open>c\<close> that is not \<^verbatim>\<open>None\<close>, \<^verbatim>\<open>Joiner.process\<close> returns the joined element, leaves
  the arriving side's own cache as it was and leaves the opposite cache mapping every key
  to the value it had: no entry is removed. So the next arrival with that key on the same
  side is joined with \<open>c\<close> again.
\<close>

theorem match_keeps_entry:
  assumes "lookup ss (left j) = Some l" and "lookup ss (target j) = Some t" and "c \<noteq> VNone"
  shows "(map_of (entries (cache_right j)) k = Some c \<longrightarrow>
            fst (Joiner_process ss j (arrival (ident l) (k, v)))
              = Inr (Some \<lparr>stream_id = ident t, data = VTuple [k, VTuple [v, c]]\<rparr>)
            \<and> map_of (entries (cache_right (snd (Joiner_process ss j (arrival (ident l) (k, v))))))
              = map_of (entries (cache_right j))
            \<and> cache_left (snd (Joiner_process ss j (arrival (ident l) (k, v)))) = cache_left j
            \<and> fst (Joiner_process ss (snd (Joiner_process ss j (arrival (ident l) (k, v))))
                     (arrival (ident l) (k, v')))
              = Inr (Some \<lparr>stream_id = ident t, data = VTuple [k, VTuple [v', c]]\<rparr>))
       \<and> (map_of (entries (cache_left j)) k = Some c \<and> sid \<noteq> ident l \<longrightarrow>
            fst (Joiner_process ss j (arrival sid (k, v)))
              = Inr (Some \<lparr>stream_id = ident t, data = VTuple [k, VTuple [c, v]]\<rparr>)
            \<and> map_of (entries (cache_left (snd (Joiner_process ss j (arrival sid (k, v))))))
              = map_of (entries (cache_left j))
            \<and> cache_right (snd (Joiner_process ss j (arrival sid (k, v)))) = cache_right j
            \<and> fst (Joiner_process ss (snd (Joiner_process ss j (arrival sid (k, v))))
                     (arrival sid (k, v')))
              = Inr (Some \<lparr>stream_id = ident t, data = VTuple [k, VTuple [c, v']]\<rparr>))"
proof (intro conjI impI)
  assume m: "map_of (entries (cache_right j)) k = Some c"
  let ?j' = "j\<lparr>cache_right := (cache_right j)
                 \<lparr>entries := (k, c) # filter (\<lambda>p. fst p \<noteq> k) (entries (cache_right j))\<rparr>\<rparr>"
  have s1: "Joiner_process ss j (arrival (ident l) (k, v))
         = (Inr (Some \<lparr>stream_id = ident t, data = VTuple [k, VTuple [v, c]]\<rparr>), ?j')"
    using assms m by (rule match_left_step)
  have s2: "fst (Joiner_process ss ?j' (arrival (ident l) (k, v')))
         = Inr (Some \<lparr>stream_id = ident t, data = VTuple [k, VTuple [v', c]]\<rparr>)"
    using assms by (subst match_left_step [where l = l and t = t and c = c]) simp_all
  show "fst (Joiner_process ss j (arrival (ident l) (k, v)))
              = Inr (Some \<lparr>stream_id = ident t, data = VTuple [k, VTuple [v, c]]\<rparr>)"
    by (simp add: s1)
  show "map_of (entries (cache_right (snd (Joiner_process ss j (arrival (ident l) (k, v))))))
              = map_of (entries (cache_right j))"
    using map_of_refresh [OF m] by (simp add: s1)
  show "cache_left (snd (Joiner_process ss j (arrival (ident l) (k, v)))) = cache_left j"
    by (simp add: s1)
  show "fst (Joiner_process ss (snd (Joiner_process ss j (arrival (ident l) (k, v))))
                     (arrival (ident l) (k, v')))
              = Inr (Some \<lparr>stream_id = ident t, data = VTuple [k, VTuple [v', c]]\<rparr>)"
    using s2 by (simp add: s1)
next
  assume "map_of (entries (cache_left j)) k = Some c \<and> sid \<noteq> ident l"
  then have m: "map_of (entries (cache_left j)) k = Some c" and d: "sid \<noteq> ident l"
    by simp_all
  let ?j' = "j\<lparr>cache_left := (cache_left j)
                 \<lparr>entries := (k, c) # filter (\<lambda>p. fst p \<noteq> k) (entries (cache_left j))\<rparr>\<rparr>"
  have s1: "Joiner_process ss j (arrival sid (k, v))
         = (Inr (Some \<lparr>stream_id = ident t, data = VTuple [k, VTuple [c, v]]\<rparr>), ?j')"
    using assms m d by (rule match_right_step)
  have s2: "fst (Joiner_process ss ?j' (arrival sid (k, v')))
         = Inr (Some \<lparr>stream_id = ident t, data = VTuple [k, VTuple [c, v']]\<rparr>)"
    using assms d by (subst match_right_step [where l = l and t = t and c = c]) simp_all
  show "fst (Joiner_process ss j (arrival sid (k, v)))
              = Inr (Some \<lparr>stream_id = ident t, data = VTuple [k, VTuple [c, v]]\<rparr>)"
    by (simp add: s1)
  show "map_of (entries (cache_left (snd (Joiner_process ss j (arrival sid (k, v))))))
              = map_of (entries (cache_left j))"
    using map_of_refresh [OF m] by (simp add: s1)
  show "cache_right (snd (Joiner_process ss j (arrival sid (k, v)))) = cache_right j"
    by (simp add: s1)
  show "fst (Joiner_process ss (snd (Joiner_process ss j (arrival sid (k, v))))
                     (arrival sid (k, v')))
              = Inr (Some \<lparr>stream_id = ident t, data = VTuple [k, VTuple [c, v']]\<rparr>)"
    using s2 by (simp add: s1)
qed

text \<open>
  Both caches hold the key 1 with the value 1 and a second key 7: a left and a right
  arrival for key 1 are each joined twice, and key 7 stays in the opposite cache.
\<close>

theorem match_keeps_entry_witness:
  "fst (Joiner_process (streams (joined_state ''l'' ''r'' 128 ''t''))
          (joiner_with [(VInt 1, VInt 1), (VInt 7, VInt 8)] [(VInt 1, VInt 1), (VInt 7, VInt 8)] 128)
          (arrival ''l'' (VInt 1, VInt 2)))
     = Inr (Some \<lparr>stream_id = ''t'', data = VTuple [VInt 1, VTuple [VInt 2, VInt 1]]\<rparr>)
   \<and> map_of (entries (cache_right (snd (Joiner_process (streams (joined_state ''l'' ''r'' 128 ''t''))
          (joiner_with [(VInt 1, VInt 1), (VInt 7, VInt 8)] [(VInt 1, VInt 1), (VInt 7, VInt 8)] 128)
          (arrival ''l'' (VInt 1, VInt 2)))))) (VInt 7) = Some (VInt 8)
   \<and> fst (Joiner_process (streams (joined_state ''l'' ''r'' 128 ''t''))
          (snd (Joiner_process (streams (joined_state ''l'' ''r'' 128 ''t''))
                  (joiner_with [(VInt 1, VInt 1), (VInt 7, VInt 8)]
                     [(VInt 1, VInt 1), (VInt 7, VInt 8)] 128)
                  (arrival ''l'' (VInt 1, VInt 2))))
          (arrival ''l'' (VInt 1, VInt 3)))
     = Inr (Some \<lparr>stream_id = ''t'', data = VTuple [VInt 1, VTuple [VInt 3, VInt 1]]\<rparr>)
   \<and> fst (Joiner_process (streams (joined_state ''l'' ''r'' 128 ''t''))
          (joiner_with [(VInt 1, VInt 1), (VInt 7, VInt 8)] [(VInt 1, VInt 1), (VInt 7, VInt 8)] 128)
          (arrival ''r'' (VInt 1, VInt 2)))
     = Inr (Some \<lparr>stream_id = ''t'', data = VTuple [VInt 1, VTuple [VInt 1, VInt 2]]\<rparr>)
   \<and> map_of (entries (cache_left (snd (Joiner_process (streams (joined_state ''l'' ''r'' 128 ''t''))
          (joiner_with [(VInt 1, VInt 1), (VInt 7, VInt 8)] [(VInt 1, VInt 1), (VInt 7, VInt 8)] 128)
          (arrival ''r'' (VInt 1, VInt 2)))))) (VInt 7) = Some (VInt 8)
   \<and> fst (Joiner_process (streams (joined_state ''l'' ''r'' 128 ''t''))
          (snd (Joiner_process (streams (joined_state ''l'' ''r'' 128 ''t''))
                  (joiner_with [(VInt 1, VInt 1), (VInt 7, VInt 8)]
                     [(VInt 1, VInt 1), (VInt 7, VInt 8)] 128)
                  (arrival ''r'' (VInt 1, VInt 2))))
          (arrival ''r'' (VInt 1, VInt 3)))
     = Inr (Some \<lparr>stream_id = ''t'', data = VTuple [VInt 1, VTuple [VInt 1, VInt 3]]\<rparr>)"
proof -
  let ?j = "joiner_with [(VInt 1, VInt 1), (VInt 7, VInt 8)] [(VInt 1, VInt 1), (VInt 7, VInt 8)] 128"
  have h: "lookup (streams (joined_state ''l'' ''r'' 128 ''t'')) (left ?j)
           = Some \<lparr>head = Some 0, filters = [0], ident = ''l''\<rparr>"
    "lookup (streams (joined_state ''l'' ''r'' 128 ''t'')) (target ?j)
           = Some \<lparr>head = Some 2, filters = [0], ident = ''t''\<rparr>"
    by (simp_all add: joined_state_def joiner_with_def lookup_def)
  have n: "VInt 1 \<noteq> VNone" by simp
  have c: "map_of (entries (cache_left ?j)) (VInt 1) = Some (VInt 1)"
    "map_of (entries (cache_right ?j)) (VInt 1) = Some (VInt 1)"
    "map_of (entries (cache_left ?j)) (VInt 7) = Some (VInt 8)"
    "map_of (entries (cache_right ?j)) (VInt 7) = Some (VInt 8)"
    by (simp_all add: joiner_with_def)
  show ?thesis
    using c match_keeps_entry [OF h n, of "VInt 1" "VInt 2" "VInt 3" "''r''"] by simp
qed

subsection \<open>The one link of the shared \<^verbatim>\<open>Joiner\<close>\<close>

text \<open>
  Claim C9. \<^verbatim>\<open>join\<close> appends one \<^verbatim>\<open>Joiner\<close> object (filter 0) to the left, the right and
  the target stream, and its \<^verbatim>\<open>next\<close> is \<^verbatim>\<open>None\<close>. A \<^verbatim>\<open>map\<close> on any one of the three
  streams sets that \<^verbatim>\<open>next\<close> to the generator of the new mapper, and a \<^verbatim>\<open>map\<close> on another
  of the three overwrites it. After the first \<^verbatim>\<open>map\<close> the joined elements go to the
  mapper of \<open>g\<close> (filter 1); after the second they go to the mapper of \<open>h\<close> (filter 2) and
  no longer to that of \<open>g\<close>, whichever of the three streams each \<^verbatim>\<open>map\<close> was called on and
  whichever side the matching arrival came from.
\<close>

theorem joiner_single_link:
  assumes "joined lid rid n tid = Inr (l, r, t, s)"
    and "x \<in> {l, r, t}" and "y \<in> {l, r, t}" and "x \<noteq> y"
    and "Stream_map g x s = Inr s1" and "Stream_map h y s1 = Inr s2"
    and "lid \<noteq> rid" and "a \<noteq> VNone" and "b \<noteq> VNone"
    and "g (VTuple [k, VTuple [a, b] ]) = Inr u"
    and "h (VTuple [k, VTuple [a, b] ]) = Inr w"
  shows "filters (streams s ! l) = [0] \<and> filters (streams s ! r) = [0]
       \<and> filters (streams s ! t) = [0]
       \<and> nxt (fltrs s ! 0) = None \<and> nxt (fltrs s1 ! 0) = Some 3 \<and> nxt (fltrs s2 ! 0) = Some 4
       \<and> gens s2 ! 3 = \<lparr>owner = 1, status = Suspended\<rparr>
       \<and> gens s2 ! 4 = \<lparr>owner = 2, status = Suspended\<rparr>
       \<and> kind (fltrs s2 ! 1) = Mapper g \<and> kind (fltrs s2 ! 2) = Mapper h
       \<and> snd (feed [(l, VTuple [k, a]), (r, VTuple [k, b])] s1)
         = ([ [Drop 0], [Emit 0 \<lparr>stream_id = tid, data = VTuple [k, VTuple [a, b] ]\<rparr>,
                        Emit 1 \<lparr>stream_id = tid, data = u\<rparr>] ], None)
       \<and> snd (feed [(l, VTuple [k, a]), (r, VTuple [k, b])] s2)
         = ([ [Drop 0], [Emit 0 \<lparr>stream_id = tid, data = VTuple [k, VTuple [a, b] ]\<rparr>,
                        Emit 2 \<lparr>stream_id = tid, data = w\<rparr>] ], None)
       \<and> snd (feed [(r, VTuple [k, b]), (l, VTuple [k, a])] s2)
         = ([ [Drop 0], [Emit 0 \<lparr>stream_id = tid, data = VTuple [k, VTuple [a, b] ]\<rparr>,
                        Emit 2 \<lparr>stream_id = tid, data = w\<rparr>] ], None)"
proof -
  from joined_InrD [OF assms(1)]
  have n: "0 < n" and l: "l = 0" and r: "r = 1" and t: "t = 2"
    and s: "s = joined_state lid rid n tid" by simp_all
  from assms(2,3,4) l r t
  consider "x = 0" "y = 1" | "x = 0" "y = 2" | "x = 1" "y = 0"
    | "x = 1" "y = 2" | "x = 2" "y = 0" | "x = 2" "y = 1" by auto
  then show ?thesis
    using assms(5-11) s l r t n
    by cases (auto simp add: joined_state_def build_defs run_defs)
qed

text \<open>
  The target stream gets \<^verbatim>\<open>map(times_2)\<close>, then the left stream gets \<^verbatim>\<open>map(times_2)\<close>:
  the joined element reaches the mapper appended to the left stream only.
\<close>

theorem joiner_single_link_witness:
  "snd (feed [(0, VTuple [VInt 1, VInt 1]), (1, VTuple [VInt 1, VInt 2])]
          (case Stream_map times_2 2 (joined_state ''l'' ''r'' 128 ''t'') of
             Inr s1 \<Rightarrow> (case Stream_map times_2 0 s1 of Inr s2 \<Rightarrow> s2)))
   = ([ [Drop 0],
       [Emit 0 \<lparr>stream_id = ''t'', data = VTuple [VInt 1, VTuple [VInt 1, VInt 2] ]\<rparr>,
        Emit 2 \<lparr>stream_id = ''t'',
                data = VTuple [VInt 1, VTuple [VInt 1, VInt 2],
                               VInt 1, VTuple [VInt 1, VInt 2] ]\<rparr>] ], None)"
proof -
  let ?s = "joined_state ''l'' ''r'' 128 ''t''"
  obtain s1 where s1: "Stream_map times_2 2 ?s = Inr s1"
    by (simp add: joined_state_def build_defs)
  obtain s2 where s2: "Stream_map times_2 0 s1 = Inr s2"
    using s1 by (auto simp add: joined_state_def build_defs)
  have h: "joined ''l'' ''r'' 128 ''t'' = Inr (0, 1, 2, ?s)"
    by (simp add: joined_eq)
  have x: "(2::nat) \<in> {0, 1, 2}" and y: "(0::nat) \<in> {0, 1, 2}" and xy: "(2::nat) \<noteq> 0"
    and d: "''l'' \<noteq> ''r''" and a: "VInt 1 \<noteq> VNone" and b: "VInt 2 \<noteq> VNone"
    by simp_all
  have u: "times_2 (VTuple [VInt 1, VTuple [VInt 1, VInt 2] ])
      = Inr (VTuple [VInt 1, VTuple [VInt 1, VInt 2], VInt 1, VTuple [VInt 1, VInt 2] ])"
    by simp
  show ?thesis
    using joiner_single_link [OF h x y xy s1 s2 d a b u u] by (simp add: s1 s2)
qed


subsection \<open>Bounded caches\<close>

lemma map_of_absent: "k \<notin> fst ` set es \<Longrightarrow> map_of es k = None"
  by (simp add: map_of_eq_None_iff)

lemma lru_get_miss: "k \<notin> fst ` set (entries c) \<Longrightarrow> lru_get k c = (VNone, c)"
  by (simp add: lru_get_def map_of_absent)

lemma lru_set_new:
  assumes "k \<notin> fst ` set (entries c)" and "0 < capacity c"
    and "length (entries c) \<le> capacity c"
  shows "lru_set k v c = c\<lparr>entries := take (capacity c) ((k, v) # entries c)\<rparr>"
proof (cases "capacity c \<le> length (entries c)")
  case True
  with assms(3) have "length (entries c) = capacity c" by simp
  with assms(2) have "take (capacity c) ((k, v) # entries c) = (k, v) # butlast (entries c)"
    by (cases "capacity c") (simp_all add: butlast_conv_take)
  with True assms(1) show ?thesis by (simp add: lru_set_def)
next
  case False
  with assms(1) show ?thesis by (simp add: lru_set_def)
qed

lemma length_filter_present:
  "k \<in> fst ` set es \<Longrightarrow> Suc (length (filter (\<lambda>p. fst p \<noteq> k) es)) \<le> length es"
proof (induction es)
  case Nil
  then show ?case by simp
next
  case (Cons p es)
  show ?case
  proof (cases "fst p = k")
    case True
    then show ?thesis by (simp add: le_SucI)
  next
    case False
    with Cons show ?thesis by auto
  qed
qed

lemma lru_get_bound:
  "length (entries c) \<le> m \<Longrightarrow> length (entries (snd (lru_get k c))) \<le> m"
proof (cases "map_of (entries c) k")
  case None
  assume "length (entries c) \<le> m"
  with None show ?thesis by (simp add: lru_get_def)
next
  case (Some v)
  assume b: "length (entries c) \<le> m"
  from Some have "k \<in> fst ` set (entries c)"
    by (metis domI dom_map_of_conv_image_fst)
  from length_filter_present [OF this] b Some show ?thesis
    by (simp add: lru_get_def)
qed

lemma lru_get_capacity: "capacity (snd (lru_get k c)) = capacity c"
  by (simp add: lru_get_def split: option.splits)

lemma lru_set_capacity: "capacity (lru_set k v c) = capacity c"
  by (simp add: lru_set_def)

lemma lru_set_bound:
  assumes "length (entries c) \<le> capacity c" and "0 < capacity c"
  shows "length (entries (lru_set k v c)) \<le> capacity c"
proof (cases "k \<in> fst ` set (entries c)")
  case True
  from length_filter_present [OF True] assms(1) True show ?thesis
    by (simp add: lru_set_def)
next
  case False
  with assms show ?thesis by (auto simp add: lru_set_def)
qed

lemma Joiner_init_bounded: "Joiner_init l r t n = Inr j \<Longrightarrow> bounded j"
  by (auto simp add: Joiner_init_def lrucache_init_def bounded_def split: if_splits)

lemma Joiner_process_bounded:
  assumes "bounded j"
  shows "bounded (snd (Joiner_process ss j e))"
proof -
  define m where "m = nat (max_size j)"
  from assms have pos: "0 < max_size j" and m: "0 < m"
    and cl: "capacity (cache_left j) = m" and cr: "capacity (cache_right j) = m"
    and bl: "length (entries (cache_left j)) \<le> m"
    and br: "length (entries (cache_right j)) \<le> m"
    by (simp_all add: bounded_def m_def)
  have gl: "length (entries (snd (lru_get k (cache_left j)))) \<le> m" for k
    using bl by (rule lru_get_bound)
  have gr: "length (entries (snd (lru_get k (cache_right j)))) \<le> m" for k
    using br by (rule lru_get_bound)
  have sl: "length (entries (lru_set k v (cache_left j))) \<le> m" for k v
    using lru_set_bound [of "cache_left j" k v] bl cl m by simp
  have sr: "length (entries (lru_set k v (cache_right j))) \<le> m" for k v
    using lru_set_bound [of "cache_right j" k v] br cr m by simp
  show ?thesis
    using gl gr sl sr cl cr bl br pos
    by (auto simp add: Joiner_process_def bounded_def split_beta lru_get_capacity
        lru_set_capacity m_def [symmetric] split: sum.splits option.splits)
qed

lemma Joiner_run_bounded: "bounded j \<Longrightarrow> bounded (snd (Joiner_run ss j es))"
proof (induction es arbitrary: j)
  case Nil
  then show ?case by simp
next
  case (Cons e es)
  from Cons.IH [OF Joiner_process_bounded [OF Cons.prems, of ss e] ] show ?case
    by (simp add: split_beta)
qed

lemma left_arrival_new:
  assumes "lookup ss (left j) = Some l"
    and "k \<notin> fst ` set (entries (cache_left j))"
    and "k \<notin> fst ` set (entries (cache_right j))"
    and "capacity (cache_left j) = m" and "0 < m"
    and "length (entries (cache_left j)) \<le> m"
  shows "Joiner_process ss j (arrival (ident l) (k, v))
         = (Inr None,
            j\<lparr>cache_left := (cache_left j)\<lparr>entries := take m ((k, v) # entries (cache_left j))\<rparr>\<rparr>)"
  using assms by (simp add: Joiner_process_def arrival_def lru_get_miss lru_set_new)

lemma right_arrival_new:
  assumes "lookup ss (left j) = Some l" and "sid \<noteq> ident l"
    and "k \<notin> fst ` set (entries (cache_left j))"
    and "k \<notin> fst ` set (entries (cache_right j))"
    and "capacity (cache_right j) = m" and "0 < m"
    and "length (entries (cache_right j)) \<le> m"
  shows "Joiner_process ss j (arrival sid (k, v))
         = (Inr None,
            j\<lparr>cache_right := (cache_right j)\<lparr>entries := take m ((k, v) # entries (cache_right j))\<rparr>\<rparr>)"
  using assms by (simp add: Joiner_process_def arrival_def lru_get_miss lru_set_new)

lemma take_append_take: "take m (xs @ take m ys) = take m (xs @ ys)"
  by (simp add: min_def)

lemma left_run:
  assumes "lookup ss (left j) = Some l"
    and "capacity (cache_left j) = m" and "0 < m"
    and "length (entries (cache_left j)) \<le> m"
    and "distinct (map fst kvs)"
    and "\<forall>k \<in> fst ` set kvs. k \<notin> fst ` set (entries (cache_left j))
            \<and> k \<notin> fst ` set (entries (cache_right j))"
  shows "Joiner_run ss j (map (arrival (ident l)) kvs)
         = (replicate (length kvs) (Inr None),
            j\<lparr>cache_left := (cache_left j)\<lparr>entries := take m (rev kvs @ entries (cache_left j))\<rparr>\<rparr>)"
  using assms
proof (induction kvs arbitrary: j)
  case Nil
  then show ?case by simp
next
  case (Cons kv kvs)
  obtain k v where kv: "kv = (k, v)" by (cases kv)
  let ?j1 = "j\<lparr>cache_left := (cache_left j)\<lparr>entries := take m ((k, v) # entries (cache_left j))\<rparr>\<rparr>"
  have step: "Joiner_process ss j (arrival (ident l) (k, v)) = (Inr None, ?j1)"
  proof (rule left_arrival_new)
    show "lookup ss (left j) = Some l" by (rule Cons.prems(1))
    show "k \<notin> fst ` set (entries (cache_left j))" using Cons.prems(6) kv by simp
    show "k \<notin> fst ` set (entries (cache_right j))" using Cons.prems(6) kv by simp
    show "capacity (cache_left j) = m" by (rule Cons.prems(2))
    show "0 < m" by (rule Cons.prems(3))
    show "length (entries (cache_left j)) \<le> m" by (rule Cons.prems(4))
  qed
  have sub: "set (take m ((k, v) # entries (cache_left j)))
      \<subseteq> insert (k, v) (set (entries (cache_left j)))"
    using set_take_subset [of m "(k, v) # entries (cache_left j)"] by auto
  have fresh: "\<forall>k' \<in> fst ` set kvs. k' \<notin> fst ` set (entries (cache_left ?j1))
            \<and> k' \<notin> fst ` set (entries (cache_right ?j1))"
  proof
    fix k' assume k': "k' \<in> fst ` set kvs"
    with Cons.prems(5) kv have "k' \<noteq> k" by auto
    moreover from k' Cons.prems(6) have "k' \<notin> fst ` set (entries (cache_left j))"
      and "k' \<notin> fst ` set (entries (cache_right j))" by auto
    ultimately show "k' \<notin> fst ` set (entries (cache_left ?j1))
            \<and> k' \<notin> fst ` set (entries (cache_right ?j1))"
      using sub by (auto simp del: take_Cons')
  qed
  have ih: "Joiner_run ss ?j1 (map (arrival (ident l)) kvs)
         = (replicate (length kvs) (Inr None),
            ?j1\<lparr>cache_left := (cache_left ?j1)
                   \<lparr>entries := take m (rev kvs @ entries (cache_left ?j1))\<rparr>\<rparr>)"
    using Cons.prems fresh by (intro Cons.IH) auto
  show ?case
    using step ih by (simp add: kv take_append_take)
qed

lemma right_run:
  assumes "lookup ss (left j) = Some l" and "sid \<noteq> ident l"
    and "capacity (cache_right j) = m" and "0 < m"
    and "length (entries (cache_right j)) \<le> m"
    and "distinct (map fst kvs)"
    and "\<forall>k \<in> fst ` set kvs. k \<notin> fst ` set (entries (cache_left j))
            \<and> k \<notin> fst ` set (entries (cache_right j))"
  shows "Joiner_run ss j (map (arrival sid) kvs)
         = (replicate (length kvs) (Inr None),
            j\<lparr>cache_right := (cache_right j)\<lparr>entries := take m (rev kvs @ entries (cache_right j))\<rparr>\<rparr>)"
  using assms
proof (induction kvs arbitrary: j)
  case Nil
  then show ?case by simp
next
  case (Cons kv kvs)
  obtain k v where kv: "kv = (k, v)" by (cases kv)
  let ?j1 = "j\<lparr>cache_right := (cache_right j)\<lparr>entries := take m ((k, v) # entries (cache_right j))\<rparr>\<rparr>"
  have step: "Joiner_process ss j (arrival sid (k, v)) = (Inr None, ?j1)"
  proof (rule right_arrival_new)
    show "lookup ss (left j) = Some l" by (rule Cons.prems(1))
    show "sid \<noteq> ident l" by (rule Cons.prems(2))
    show "k \<notin> fst ` set (entries (cache_left j))" using Cons.prems(7) kv by simp
    show "k \<notin> fst ` set (entries (cache_right j))" using Cons.prems(7) kv by simp
    show "capacity (cache_right j) = m" by (rule Cons.prems(3))
    show "0 < m" by (rule Cons.prems(4))
    show "length (entries (cache_right j)) \<le> m" by (rule Cons.prems(5))
  qed
  have sub: "set (take m ((k, v) # entries (cache_right j)))
      \<subseteq> insert (k, v) (set (entries (cache_right j)))"
    using set_take_subset [of m "(k, v) # entries (cache_right j)"] by auto
  have fresh: "\<forall>k' \<in> fst ` set kvs. k' \<notin> fst ` set (entries (cache_left ?j1))
            \<and> k' \<notin> fst ` set (entries (cache_right ?j1))"
  proof
    fix k' assume k': "k' \<in> fst ` set kvs"
    with Cons.prems(6) kv have "k' \<noteq> k" by auto
    moreover from k' Cons.prems(7) have "k' \<notin> fst ` set (entries (cache_left j))"
      and "k' \<notin> fst ` set (entries (cache_right j))" by auto
    ultimately show "k' \<notin> fst ` set (entries (cache_left ?j1))
            \<and> k' \<notin> fst ` set (entries (cache_right ?j1))"
      using sub by (auto simp del: take_Cons')
  qed
  have ih: "Joiner_run ss ?j1 (map (arrival sid) kvs)
         = (replicate (length kvs) (Inr None),
            ?j1\<lparr>cache_right := (cache_right ?j1)
                   \<lparr>entries := take m (rev kvs @ entries (cache_right ?j1))\<rparr>\<rparr>)"
    using Cons.prems fresh by (intro Cons.IH) auto
  show ?case
    using step ih by (simp add: kv take_append_take)
qed

lemma evicted_absent:
  assumes "distinct (map fst kvs)" and "i < length kvs - m"
  shows "fst (kvs ! i) \<notin> fst ` set (take m (rev kvs @ es))"
proof
  assume a: "fst (kvs ! i) \<in> fst ` set (take m (rev kvs @ es))"
  from assms(2) have e: "take m (rev kvs @ es) = rev (drop (length kvs - m) kvs)"
    by (simp add: take_rev)
  from a have "fst (kvs ! i) \<in> fst ` set (rev (drop (length kvs - m) kvs))"
    unfolding e .
  then have "fst (kvs ! i) \<in> fst ` set (drop (length kvs - m) kvs)"
    by simp
  then obtain p where p: "p \<in> set (drop (length kvs - m) kvs)" and eq: "fst p = fst (kvs ! i)"
    by (auto simp: image_iff)
  from p obtain n where n: "n < length (drop (length kvs - m) kvs)"
    and pn: "p = drop (length kvs - m) kvs ! n" by (auto simp: in_set_conv_nth)
  define q where "q = length kvs - m + n"
  from n have lt: "q < length kvs" by (simp add: q_def)
  from pn lt have "p = kvs ! q" by (simp add: q_def)
  with eq lt assms(2) have "map fst kvs ! q = map fst kvs ! i" by simp
  moreover have "q < length (map fst kvs)" and "i < length (map fst kvs)"
    using lt assms(2) by simp_all
  ultimately have "q = i"
    using assms(1) by (simp only: nth_eq_iff_index_eq)
  with assms(2) show False by (simp add: q_def)
qed

text \<open>
  Claim C3. Take a \<^verbatim>\<open>Joiner\<close> whose caches have the capacity \<^verbatim>\<open>max_size\<close> and hold no
  more entries than that, as its constructor leaves them. (1) After any sequence of
  calls of \<^verbatim>\<open>process\<close> neither cache holds more than \<^verbatim>\<open>max_size\<close> entries. (2) Arrivals
  on the left with distinct keys that are in neither cache all return \<^verbatim>\<open>None\<close>, and
  the left cache then holds the \<^verbatim>\<open>max_size\<close> most recently stored entries, newest first:
  the oldest ones were evicted. (3) When more than \<^verbatim>\<open>max_size\<close> such keys have arrived, a
  later arrival on the right with one of the evicted keys (the first
  \<open>length kvs - max_size\<close> ones) returns \<^verbatim>\<open>None\<close> and raises nothing. (4), (5) The same
  with the sides exchanged.
\<close>

theorem join_bounded_memory:
  assumes "lookup ss (left j) = Some l" and "bounded j"
    and "distinct (map fst kvs)"
    and "\<forall>k \<in> fst ` set kvs. k \<notin> fst ` set (entries (cache_left j))
            \<and> k \<notin> fst ` set (entries (cache_right j))"
    and "sid \<noteq> ident l"
  shows "bounded (snd (Joiner_run ss j es))
       \<and> fst (Joiner_run ss j (map (arrival (ident l)) kvs)) = replicate (length kvs) (Inr None)
       \<and> entries (cache_left (snd (Joiner_run ss j (map (arrival (ident l)) kvs))))
           = take (nat (max_size j)) (rev kvs @ entries (cache_left j))
       \<and> (\<forall>i < length kvs - nat (max_size j).
             fst (Joiner_process ss (snd (Joiner_run ss j (map (arrival (ident l)) kvs)))
                    (arrival sid (fst (kvs ! i), w))) = Inr None)
       \<and> fst (Joiner_run ss j (map (arrival sid) kvs)) = replicate (length kvs) (Inr None)
       \<and> entries (cache_right (snd (Joiner_run ss j (map (arrival sid) kvs))))
           = take (nat (max_size j)) (rev kvs @ entries (cache_right j))
       \<and> (\<forall>i < length kvs - nat (max_size j).
             fst (Joiner_process ss (snd (Joiner_run ss j (map (arrival sid) kvs)))
                    (arrival (ident l) (fst (kvs ! i), w))) = Inr None)"
proof -
  define m where "m = nat (max_size j)"
  from assms(2) have m: "0 < m"
    and cl: "capacity (cache_left j) = m" and cr: "capacity (cache_right j) = m"
    and bl: "length (entries (cache_left j)) \<le> m"
    and br: "length (entries (cache_right j)) \<le> m"
    by (simp_all add: bounded_def m_def)
  have b: "bounded (snd (Joiner_run ss j es))"
    using assms(2) by (rule Joiner_run_bounded)
  have lrun: "Joiner_run ss j (map (arrival (ident l)) kvs)
         = (replicate (length kvs) (Inr None),
            j\<lparr>cache_left := (cache_left j)\<lparr>entries := take m (rev kvs @ entries (cache_left j))\<rparr>\<rparr>)"
    using assms(1) cl m bl assms(3,4) by (rule left_run)
  have rrun: "Joiner_run ss j (map (arrival sid) kvs)
         = (replicate (length kvs) (Inr None),
            j\<lparr>cache_right := (cache_right j)\<lparr>entries := take m (rev kvs @ entries (cache_right j))\<rparr>\<rparr>)"
    using assms(1,5) cr m br assms(3,4) by (rule right_run)
  have late_right: "\<forall>i < length kvs - m.
      fst (Joiner_process ss (snd (Joiner_run ss j (map (arrival (ident l)) kvs)))
             (arrival sid (fst (kvs ! i), w))) = Inr None"
    using assms(1,5) evicted_absent [OF assms(3), of _ m "entries (cache_left j)"]
    by (simp add: lrun Joiner_process_def arrival_def lru_get_miss)
  have late_left: "\<forall>i < length kvs - m.
      fst (Joiner_process ss (snd (Joiner_run ss j (map (arrival sid) kvs)))
             (arrival (ident l) (fst (kvs ! i), w))) = Inr None"
    using assms(1,5) evicted_absent [OF assms(3), of _ m "entries (cache_right j)"]
    by (simp add: rrun Joiner_process_def arrival_def lru_get_miss)
  show ?thesis
    using b late_right late_left unfolding m_def [symmetric]
    by (simp add: lrun rrun)
qed

text \<open>
  A \<^verbatim>\<open>Joiner\<close> of capacity 2 receives the keys 1, 2 and 3 on one side: the entry of key
  1 is evicted, and a later arrival with key 1 on the other side returns \<^verbatim>\<open>None\<close>.
\<close>

theorem join_bounded_memory_witness:
  "Joiner_init 0 1 2 2 = Inr (joiner_with [] [] 2)
   \<and> entries (cache_left (snd (Joiner_run (streams (joined_state ''l'' ''r'' 2 ''t''))
        (joiner_with [] [] 2)
        (map (arrival ''l'') [(VInt 1, VInt 10), (VInt 2, VInt 20), (VInt 3, VInt 30)]))))
     = [(VInt 3, VInt 30), (VInt 2, VInt 20)]
   \<and> fst (Joiner_process (streams (joined_state ''l'' ''r'' 2 ''t''))
        (snd (Joiner_run (streams (joined_state ''l'' ''r'' 2 ''t''))
          (joiner_with [] [] 2)
          (map (arrival ''l'') [(VInt 1, VInt 10), (VInt 2, VInt 20), (VInt 3, VInt 30)])))
        (arrival ''r'' (VInt 1, VInt 99))) = Inr None
   \<and> entries (cache_right (snd (Joiner_run (streams (joined_state ''l'' ''r'' 2 ''t''))
        (joiner_with [] [] 2)
        (map (arrival ''r'') [(VInt 1, VInt 10), (VInt 2, VInt 20), (VInt 3, VInt 30)]))))
     = [(VInt 3, VInt 30), (VInt 2, VInt 20)]
   \<and> fst (Joiner_process (streams (joined_state ''l'' ''r'' 2 ''t''))
        (snd (Joiner_run (streams (joined_state ''l'' ''r'' 2 ''t''))
          (joiner_with [] [] 2)
          (map (arrival ''r'') [(VInt 1, VInt 10), (VInt 2, VInt 20), (VInt 3, VInt 30)])))
        (arrival ''l'' (VInt 1, VInt 99))) = Inr None"
proof -
  let ?ss = "streams (joined_state ''l'' ''r'' 2 ''t'')"
  let ?j = "joiner_with [] [] 2"
  let ?kvs = "[(VInt 1, VInt 10), (VInt 2, VInt 20), (VInt 3, VInt 30)]"
  have i: "Joiner_init 0 1 2 2 = Inr ?j"
    by (simp add: Joiner_init_def lrucache_init_def joiner_with_def)
  have h: "lookup ?ss (left ?j) = Some \<lparr>head = Some 0, filters = [0], ident = ''l''\<rparr>"
    by (simp add: joined_state_def joiner_with_def lookup_def)
  have b: "bounded ?j" by (simp add: bounded_def joiner_with_def)
  have d: "distinct (map fst ?kvs)" by simp
  have f: "\<forall>k \<in> fst ` set ?kvs. k \<notin> fst ` set (entries (cache_left ?j))
            \<and> k \<notin> fst ` set (entries (cache_right ?j))"
    by (simp add: joiner_with_def)
  have n: "''r'' \<noteq> ident \<lparr>head = Some 0, filters = [0], ident = ''l''\<rparr>" by simp
  have m: "nat (max_size ?j) = 2" "entries (cache_left ?j) = []" "entries (cache_right ?j) = []"
    by (simp_all add: joiner_with_def)
  from join_bounded_memory [OF h b d f n, of "[]" "VInt 99"]
  have *: "entries (cache_left (snd (Joiner_run ?ss ?j (map (arrival ''l'') ?kvs))))
           = take 2 (rev ?kvs)"
    and **: "\<forall>i < 1. fst (Joiner_process ?ss (snd (Joiner_run ?ss ?j (map (arrival ''l'') ?kvs)))
                    (arrival ''r'' (fst (?kvs ! i), VInt 99))) = Inr None"
    and ***: "entries (cache_right (snd (Joiner_run ?ss ?j (map (arrival ''r'') ?kvs))))
           = take 2 (rev ?kvs)"
    and ****: "\<forall>i < 1. fst (Joiner_process ?ss (snd (Joiner_run ?ss ?j (map (arrival ''r'') ?kvs)))
                    (arrival ''l'' (fst (?kvs ! i), VInt 99))) = Inr None"
    unfolding m by simp_all
  from ** have r: "fst (Joiner_process ?ss (snd (Joiner_run ?ss ?j (map (arrival ''l'') ?kvs)))
                    (arrival ''r'' (VInt 1, VInt 99))) = Inr None"
    by simp
  from **** have l: "fst (Joiner_process ?ss (snd (Joiner_run ?ss ?j (map (arrival ''r'') ?kvs)))
                    (arrival ''l'' (VInt 1, VInt 99))) = Inr None"
    by simp
  from * *** have e: "entries (cache_left (snd (Joiner_run ?ss ?j (map (arrival ''l'') ?kvs))))
           = [(VInt 3, VInt 30), (VInt 2, VInt 20)]"
    "entries (cache_right (snd (Joiner_run ?ss ?j (map (arrival ''r'') ?kvs))))
           = [(VInt 3, VInt 30), (VInt 2, VInt 20)]"
    by simp_all
  show ?thesis using i r l e by simp
qed


section \<open>Chains of mappers\<close>

lemma chain_gens_snoc:
  "chain_gens n 0 @ [\<lparr>owner = n, status = Suspended\<rparr>] = chain_gens (Suc n) 0"
  by (simp add: chain_gens_def)

lemma chain_fltrs_snoc:
  assumes "fs \<noteq> []"
  shows "(chain_fltrs fs @ [\<lparr>kind = Mapper g, nxt = None\<rparr>])
           [length fs - Suc 0 :=
              (chain_fltrs fs ! (length fs - Suc 0))\<lparr>nxt := Some (length fs)\<rparr>]
         = chain_fltrs (fs @ [g])"
proof (rule nth_equalityI)
  show "length ((chain_fltrs fs @ [\<lparr>kind = Mapper g, nxt = None\<rparr>])
           [length fs - Suc 0 :=
              (chain_fltrs fs ! (length fs - Suc 0))\<lparr>nxt := Some (length fs)\<rparr>])
        = length (chain_fltrs (fs @ [g]))"
    by (simp add: chain_fltrs_def)
next
  fix i
  assume "i < length ((chain_fltrs fs @ [\<lparr>kind = Mapper g, nxt = None\<rparr>])
           [length fs - Suc 0 :=
              (chain_fltrs fs ! (length fs - Suc 0))\<lparr>nxt := Some (length fs)\<rparr>])"
  then have i: "i < Suc (length fs)" by (simp add: chain_fltrs_def)
  from assms have pos: "0 < length fs" by simp
  from assms have ne: "length fs - Suc 0 \<noteq> length fs" by (cases fs) simp_all
  show "(chain_fltrs fs @ [\<lparr>kind = Mapper g, nxt = None\<rparr>])
           [length fs - Suc 0 :=
              (chain_fltrs fs ! (length fs - Suc 0))\<lparr>nxt := Some (length fs)\<rparr>] ! i
        = chain_fltrs (fs @ [g]) ! i"
  proof (cases "i = length fs")
    case True
    with ne show ?thesis
      by (simp add: chain_fltrs_def nth_append nth_list_update_neq del: upt_Suc)
  next
    case False
    with i have lt: "i < length fs" by simp
    show ?thesis
    proof (cases "i = length fs - Suc 0")
      case True
      with lt pos show ?thesis
        by (simp add: chain_fltrs_def nth_append del: upt_Suc)
    next
      case False
      with lt have "Suc i < length fs" by simp
      with lt False show ?thesis
        by (simp add: chain_fltrs_def nth_append del: upt_Suc)
    qed
  qed
qed

lemma Stream_map_chain:
  "Stream_map g 0 (chain_state sid fs 0) = Inr (chain_state sid (fs @ [g]) 0)"
proof (cases "fs = []")
  case True
  then show ?thesis
    by (simp add: Stream_map_def Filter_init_def Stream_append_def lookup_def
        chain_state_def chain_fltrs_def chain_gens_def)
next
  case False
  then have pos: "0 < length fs" by simp
  have last: "last [0..<length fs] = length fs - Suc 0"
    using pos by (simp add: last_upt)
  have lk: "(chain_fltrs fs @ [\<lparr>kind = Mapper g, nxt = None\<rparr>]) ! (length fs - Suc 0)
      = chain_fltrs fs ! (length fs - Suc 0)"
    using pos by (simp add: nth_append chain_fltrs_def)
  have len: "length (chain_fltrs fs) = length fs" by (simp add: chain_fltrs_def)
  show ?thesis
    using False pos chain_fltrs_snoc [OF False, of g] chain_gens_snoc [of "length fs"]
    by (simp add: Stream_map_def Filter_init_def Stream_append_def lookup_def
        chain_state_def last lk len Let_def chain_gens_def)
qed

lemma map_all_chain:
  "map_all gs 0 (chain_state sid fs 0) = Inr (chain_state sid (fs @ gs) 0)"
  by (induction gs arbitrary: fs) (simp_all add: Stream_map_chain)

lemma mapped_eq: "mapped sid fs = Inr (0, chain_state sid fs 0)"
proof -
  have "Stream_init (Some sid) [] new_state = (0, chain_state sid [] 0)"
    by (simp add: Stream_init_def new_state_def chain_state_def chain_fltrs_def chain_gens_def)
  then show ?thesis
    using map_all_chain [of fs sid "[]"] by (simp add: mapped_def)
qed

lemma chain_lookup_gen:
  "i < length fs \<Longrightarrow>
     lookup (gens (chain_state sid fs i)) i = Some \<lparr>owner = i, status = Suspended\<rparr>"
  by (simp add: lookup_def chain_state_def chain_gens_def)

lemma chain_lookup_fltr:
  "i < length fs \<Longrightarrow>
     lookup (fltrs (chain_state sid fs k)) i
     = Some \<lparr>kind = Mapper (fs ! i),
              nxt = (if Suc i < length fs then Some (Suc i) else None)\<rparr>"
  by (simp add: lookup_def chain_state_def chain_fltrs_def)

lemma set_kind_chain:
  "i < length fs \<Longrightarrow> set_kind i (Mapper (fs ! i)) (chain_state sid fs k) = chain_state sid fs k"
  by (simp add: set_kind_def chain_state_def chain_fltrs_def list_update_same_conv)

lemma set_status_running:
  assumes "i < length fs"
  shows "set_status i Running (chain_state sid fs i) = chain_state sid fs (Suc i)"
proof -
  have "(chain_gens (length fs) i)[i := (chain_gens (length fs) i ! i)\<lparr>status := Running\<rparr>]
        = chain_gens (length fs) (Suc i)"
    using assms
    by (intro nth_equalityI) (auto simp: chain_gens_def nth_list_update less_Suc_eq)
  then show ?thesis by (simp add: set_status_def chain_state_def)
qed

lemma set_status_suspended:
  assumes "i < length fs"
  shows "set_status i Suspended (chain_state sid fs (Suc i)) = chain_state sid fs i"
proof -
  have "(chain_gens (length fs) (Suc i))
          [i := (chain_gens (length fs) (Suc i) ! i)\<lparr>status := Suspended\<rparr>]
        = chain_gens (length fs) i"
    using assms
    by (intro nth_equalityI) (auto simp: chain_gens_def nth_list_update less_Suc_eq)
  then show ?thesis by (simp add: set_status_def chain_state_def)
qed

lemma send_chain_ok:
  assumes "i < length fs" and "compose (drop i fs) v = Inr y"
  shows "send i \<lparr>stream_id = sid, data = v\<rparr> (chain_state sid fs i)
         = (chain_state sid fs i,
            map2 (\<lambda>j w. Emit j \<lparr>stream_id = sid, data = w\<rparr>) [i..<length fs]
              (outputs (drop i fs) v),
            None)"
  using assms
proof (induction "length fs - i" arbitrary: i v)
  case 0
  then show ?case by simp
next
  case (Suc d)
  from Suc.prems(1) have dr: "drop i fs = fs ! i # drop (Suc i) fs"
    by (simp add: Cons_nth_drop_Suc)
  with Suc.prems(2) obtain w where w: "(fs ! i) v = Inr w"
    and rest: "compose (drop (Suc i) fs) w = Inr y"
    by (auto split: sum.splits)
  from Suc.prems(1) have up: "[i..<length fs] = i # [Suc i..<length fs]"
    by (simp add: upt_conv_Cons)
  show ?case
  proof (cases "Suc i < length fs")
    case True
    from Suc.hyps(2) have "d = length fs - Suc i" by simp
    from Suc.hyps(1) [OF this True rest]
    have ih: "send (Suc i) \<lparr>stream_id = sid, data = w\<rparr> (chain_state sid fs (Suc i))
         = (chain_state sid fs (Suc i),
            map2 (\<lambda>j w. Emit j \<lparr>stream_id = sid, data = w\<rparr>) [Suc i..<length fs]
              (outputs (drop (Suc i) fs) w),
            None)" .
    show ?thesis
      apply (subst send.simps)
      using Suc.prems(1) True w
      by (simp add: chain_lookup_gen chain_lookup_fltr Mapper_process_def set_kind_chain
          set_status_running set_status_suspended ih dr up)
  next
    case False
    with Suc.prems(1) have "drop (Suc i) fs = []" by simp
    then show ?thesis
      apply (subst send.simps)
      using Suc.prems(1) False w
      by (simp add: chain_lookup_gen chain_lookup_fltr Mapper_process_def set_kind_chain dr up)
  qed
qed

lemma length_outputs: "compose fs x = Inr y \<Longrightarrow> length (outputs fs x) = length fs"
  by (induction fs arbitrary: x) (auto split: sum.splits)

lemma last_outputs: "compose fs x = Inr y \<Longrightarrow> fs \<noteq> [] \<Longrightarrow> last (outputs fs x) = y"
proof (induction fs arbitrary: x)
  case Nil
  then show ?case by simp
next
  case (Cons f fs)
  from Cons.prems(1) obtain w where w: "f x = Inr w" and rest: "compose fs w = Inr y"
    by (auto split: sum.splits)
  show ?case
  proof (cases "fs = []")
    case True
    with w rest show ?thesis by simp
  next
    case False
    with length_outputs [OF rest] have "outputs fs w \<noteq> []" by auto
    with Cons.IH [OF rest False] w show ?thesis by simp
  qed
qed

text \<open>
  Claim C4. For the stream built by \<^verbatim>\<open>Stream(sid).map(f1). ... .map(fn)\<close> and every input
  \<open>x\<close> on which the functions, composed left to right, return a value \<open>y\<close>:
  \<^verbatim>\<open>process(x)\<close> raises nothing and leaves the store as it was; the mappers run in the
  order of the appends, the \<open>i\<close>-th returning the value of the first \<open>i\<close> functions
  composed and applied to \<open>x\<close>, each with the identity of the stream, which is that of its
  input element; the last mapper returns \<open>y\<close>.
\<close>

theorem map_composes:
  assumes "mapped sid fs = Inr (st, s)" and "compose fs x = Inr y"
  shows "\<exists>tr. Stream_process x st s = (s, tr, None)
           \<and> tr = map2 (\<lambda>i v. Emit i \<lparr>stream_id = sid, data = v\<rparr>) [0..<length fs] (outputs fs x)
           \<and> length tr = length fs
           \<and> (fs \<noteq> [] \<longrightarrow> last tr = Emit (length fs - 1) \<lparr>stream_id = sid, data = y\<rparr>)"
proof -
  from assms(1) have st: "st = 0" and s: "s = chain_state sid fs 0"
    by (simp_all add: mapped_eq)
  let ?tr = "map2 (\<lambda>i v. Emit i \<lparr>stream_id = sid, data = v\<rparr>) [0..<length fs] (outputs fs x)"
  have run: "Stream_process x st s = (s, ?tr, None)"
  proof (cases "fs = []")
    case True
    then show ?thesis
      by (simp add: st s Stream_process_def lookup_def chain_state_def)
  next
    case False
    with send_chain_ok [of 0 fs x y sid] assms(2) show ?thesis
      by (simp add: st s Stream_process_def lookup_def chain_state_def)
  qed
  have len: "length ?tr = length fs"
    using length_outputs [OF assms(2)] by simp
  have "last ?tr = Emit (length fs - 1) \<lparr>stream_id = sid, data = y\<rparr>" if ne: "fs \<noteq> []"
  proof -
    from ne len have "?tr \<noteq> []" by auto
    then have "last ?tr = ?tr ! (length fs - 1)"
      using len by (simp add: last_conv_nth)
    also have "\<dots> = Emit (length fs - 1) \<lparr>stream_id = sid, data = outputs fs x ! (length fs - 1)\<rparr>"
      using ne length_outputs [OF assms(2)] by simp
    also have "outputs fs x ! (length fs - 1) = last (outputs fs x)"
    proof -
      from ne length_outputs [OF assms(2)] have "outputs fs x \<noteq> []" by auto
      then show ?thesis using length_outputs [OF assms(2)] by (simp add: last_conv_nth)
    qed
    finally show ?thesis using last_outputs [OF assms(2) ne] by simp
  qed
  with run len show ?thesis by blast
qed

text \<open>\<^verbatim>\<open>test_map\<close> with a second doubling: \<^verbatim>\<open>Stream().map(times_2).map(times_2)\<close> on 4.\<close>

theorem map_composes_witness:
  "mapped ''s'' [times_2, times_2] = Inr (0, chain_state ''s'' [times_2, times_2] 0)
   \<and> compose [times_2, times_2] (VInt 4) = Inr (VInt 16)
   \<and> Stream_process (VInt 4) 0 (chain_state ''s'' [times_2, times_2] 0)
     = (chain_state ''s'' [times_2, times_2] 0,
        [Emit 0 \<lparr>stream_id = ''s'', data = VInt 8\<rparr>,
         Emit 1 \<lparr>stream_id = ''s'', data = VInt 16\<rparr>], None)"
proof -
  have h: "mapped ''s'' [times_2, times_2] = Inr (0, chain_state ''s'' [times_2, times_2] 0)"
    by (rule mapped_eq)
  have c: "compose [times_2, times_2] (VInt 4) = Inr (VInt 16)" by simp
  have u: "[0..<2] = [0, 1]" by (simp add: upt_rec)
  show ?thesis
    using h c map_composes [OF h c] by (simp add: u)
qed

section \<open>A transform that raises\<close>

text \<open>
  Claim C7 says that a transform that raises during \<^verbatim>\<open>process\<close> reaches the caller, and
  that a later \<^verbatim>\<open>process\<close> call on the same stream behaves as if the faulting call had
  never happened. The first half holds; the code does not do the second. On
  \<^verbatim>\<open>Stream().map(times_2)\<close>, \<^verbatim>\<open>process(4)\<close> makes the mapper return 8 and
  \<^verbatim>\<open>process(None)\<close> raises \<^verbatim>\<open>TypeError\<close>; the exception leaves the \<^verbatim>\<open>while True\<close> loop
  of \<^verbatim>\<open>Filter.__call__\<close> and finishes its generator, so the next \<^verbatim>\<open>process(4)\<close> raises
  \<^verbatim>\<open>StopIteration\<close> and no filter runs. The same happens on
  \<^verbatim>\<open>Stream().reduce(add, 1)\<close> after \<^verbatim>\<open>process(None)\<close>.
\<close>

theorem process_after_fault_raises:
  "mapped ''s'' [times_2] = Inr (0, chain_state ''s'' [times_2] 0)
   \<and> snd (Stream_process (VInt 4) 0 (chain_state ''s'' [times_2] 0))
     = ([Emit 0 \<lparr>stream_id = ''s'', data = VInt 8\<rparr>], None)
   \<and> snd (Stream_process VNone 0 (chain_state ''s'' [times_2] 0)) = ([], Some TypeError)
   \<and> snd (Stream_process (VInt 4) 0
            (fst (Stream_process VNone 0 (chain_state ''s'' [times_2] 0))))
     = ([], Some StopIteration)
   \<and> built ''s'' [Reduce add (VInt 1)]
     = Inr (0, kchain_state ''s'' [Reducer add (VInt 1) (VInt 1)] 0)
   \<and> snd (Stream_process (VInt 4) 0 (kchain_state ''s'' [Reducer add (VInt 1) (VInt 1)] 0))
     = ([Emit 0 \<lparr>stream_id = ''s'', data = VInt 5\<rparr>], None)
   \<and> snd (Stream_process VNone 0 (kchain_state ''s'' [Reducer add (VInt 1) (VInt 1)] 0))
     = ([], Some TypeError)
   \<and> snd (Stream_process (VInt 4) 0
            (fst (Stream_process VNone 0 (kchain_state ''s'' [Reducer add (VInt 1) (VInt 1)] 0))))
     = ([], Some StopIteration)"
  by (simp add: mapped_eq built_def build_defs chain_state_def chain_fltrs_def
      kchain_state_def kchain_fltrs_def chain_gens_def run_defs)

section \<open>Chains of mappers and reducers\<close>

lemma kchain_fltrs_snoc:
  assumes "ks \<noteq> []"
  shows "(kchain_fltrs ks @ [\<lparr>kind = k, nxt = None\<rparr>])
           [length ks - Suc 0 :=
              (kchain_fltrs ks ! (length ks - Suc 0))\<lparr>nxt := Some (length ks)\<rparr>]
         = kchain_fltrs (ks @ [k])"
proof (rule nth_equalityI)
  show "length ((kchain_fltrs ks @ [\<lparr>kind = k, nxt = None\<rparr>])
           [length ks - Suc 0 :=
              (kchain_fltrs ks ! (length ks - Suc 0))\<lparr>nxt := Some (length ks)\<rparr>])
        = length (kchain_fltrs (ks @ [k]))"
    by (simp add: kchain_fltrs_def)
next
  fix i
  assume "i < length ((kchain_fltrs ks @ [\<lparr>kind = k, nxt = None\<rparr>])
           [length ks - Suc 0 :=
              (kchain_fltrs ks ! (length ks - Suc 0))\<lparr>nxt := Some (length ks)\<rparr>])"
  then have i: "i < Suc (length ks)" by (simp add: kchain_fltrs_def)
  from assms have pos: "0 < length ks" by simp
  from assms have ne: "length ks - Suc 0 \<noteq> length ks" by (cases ks) simp_all
  show "(kchain_fltrs ks @ [\<lparr>kind = k, nxt = None\<rparr>])
           [length ks - Suc 0 :=
              (kchain_fltrs ks ! (length ks - Suc 0))\<lparr>nxt := Some (length ks)\<rparr>] ! i
        = kchain_fltrs (ks @ [k]) ! i"
  proof (cases "i = length ks")
    case True
    with ne show ?thesis
      by (simp add: kchain_fltrs_def nth_append nth_list_update_neq del: upt_Suc)
  next
    case False
    with i have lt: "i < length ks" by simp
    show ?thesis
    proof (cases "i = length ks - Suc 0")
      case True
      with lt pos show ?thesis
        by (simp add: kchain_fltrs_def nth_append del: upt_Suc)
    next
      case False
      with lt have "Suc i < length ks" by simp
      with lt False show ?thesis
        by (simp add: kchain_fltrs_def nth_append del: upt_Suc)
    qed
  qed
qed

lemma append_kchain:
  "(case Filter_init k (kchain_state sid ks 0) of (a, s1) \<Rightarrow> Stream_append 0 a s1)
   = Inr (kchain_state sid (ks @ [k]) 0)"
proof (cases "ks = []")
  case True
  then show ?thesis
    by (simp add: Filter_init_def Stream_append_def lookup_def
        kchain_state_def kchain_fltrs_def chain_gens_def)
next
  case False
  then have pos: "0 < length ks" by simp
  have last: "last [0..<length ks] = length ks - Suc 0"
    using pos by (simp add: last_upt)
  have lk: "(kchain_fltrs ks @ [\<lparr>kind = k, nxt = None\<rparr>]) ! (length ks - Suc 0)
      = kchain_fltrs ks ! (length ks - Suc 0)"
    using pos by (simp add: nth_append kchain_fltrs_def)
  have len: "length (kchain_fltrs ks) = length ks" by (simp add: kchain_fltrs_def)
  show ?thesis
    using False pos kchain_fltrs_snoc [OF False, of k] chain_gens_snoc [of "length ks"]
    by (simp add: Filter_init_def Stream_append_def lookup_def
        kchain_state_def last lk len Let_def chain_gens_def)
qed

lemma build_all_kchain:
  "build_all sts 0 (kchain_state sid ks 0) = Inr (kchain_state sid (ks @ map stage_kind sts) 0)"
proof (induction sts arbitrary: ks)
  case Nil
  then show ?case by simp
next
  case (Cons st sts)
  show ?case
  proof (cases st)
    case (Map f)
    with Cons.IH [of "ks @ [Mapper f]"] append_kchain [of "Mapper f" sid ks]
    show ?thesis by (simp add: Stream_map_def)
  next
    case (Reduce f initial)
    with Cons.IH [of "ks @ [Reducer f initial initial]"]
      append_kchain [of "Reducer f initial initial" sid ks]
    show ?thesis by (simp add: Stream_reduce_def)
  qed
qed

lemma built_eq: "built sid sts = Inr (0, kchain_state sid (map stage_kind sts) 0)"
proof -
  have "Stream_init (Some sid) [] new_state = (0, kchain_state sid [] 0)"
    by (simp add: Stream_init_def new_state_def kchain_state_def kchain_fltrs_def chain_gens_def)
  then show ?thesis
    using build_all_kchain [of sts sid "[]"] by (simp add: built_def)
qed

lemma relay_length: "length (fst (relay ss ks i e)) = length ks"
proof (induction ks arbitrary: i e)
  case Nil
  then show ?case by simp
next
  case (Cons k ks)
  obtain r k' where fp: "Filter_process ss k e = (r, k')"
    by (cases "Filter_process ss k e")
  show ?case
  proof (cases r)
    case (Inl err)
    with fp show ?thesis by simp
  next
    case (Inr ro)
    show ?thesis
    proof (cases ro)
      case None
      with fp Inr show ?thesis by simp
    next
      case (Some result)
      obtain ks2 tr2 r2 where rl: "relay ss ks (Suc i) result = (ks2, tr2, r2)"
        by (cases "relay ss ks (Suc i) result")
      with Cons.IH [of "Suc i" result] have "length ks2 = length ks" by simp
      with fp Inr Some rl show ?thesis by (cases r2) simp_all
    qed
  qed
qed

lemma kchain_lookup_gen:
  "i < length ks \<Longrightarrow>
     lookup (gens (kchain_state sid ks i)) i = Some \<lparr>owner = i, status = Suspended\<rparr>"
  by (simp add: lookup_def kchain_state_def chain_gens_def)

lemma kchain_lookup_fltr:
  "i < length ks \<Longrightarrow>
     lookup (fltrs (kchain_state sid ks j)) i
     = Some \<lparr>kind = ks ! i,
              nxt = (if Suc i < length ks then Some (Suc i) else None)\<rparr>"
  by (simp add: lookup_def kchain_state_def kchain_fltrs_def)

lemma kchain_set_kind:
  assumes "i < length ks"
  shows "set_kind i k (kchain_state sid ks j) = kchain_state sid (ks[i := k]) j"
proof -
  have "(kchain_fltrs ks)[i := (kchain_fltrs ks ! i)\<lparr>kind := k\<rparr>] = kchain_fltrs (ks[i := k])"
    using assms
    by (intro nth_equalityI) (auto simp: kchain_fltrs_def nth_list_update)
  moreover have "(ks[i := k] = []) = (ks = [])" by simp
  ultimately show ?thesis by (simp add: set_kind_def kchain_state_def)
qed

lemma kchain_running:
  assumes "i < length ks"
  shows "set_status i Running (kchain_state sid ks i) = kchain_state sid ks (Suc i)"
proof -
  have "(chain_gens (length ks) i)[i := (chain_gens (length ks) i ! i)\<lparr>status := Running\<rparr>]
        = chain_gens (length ks) (Suc i)"
    using assms
    by (intro nth_equalityI) (auto simp: chain_gens_def nth_list_update less_Suc_eq)
  then show ?thesis by (simp add: set_status_def kchain_state_def)
qed

lemma kchain_suspended:
  assumes "i < length ks"
  shows "set_status i Suspended (kchain_state sid ks (Suc i)) = kchain_state sid ks i"
proof -
  have "(chain_gens (length ks) (Suc i))
          [i := (chain_gens (length ks) (Suc i) ! i)\<lparr>status := Suspended\<rparr>]
        = chain_gens (length ks) i"
    using assms
    by (intro nth_equalityI) (auto simp: chain_gens_def nth_list_update less_Suc_eq)
  then show ?thesis by (simp add: set_status_def kchain_state_def)
qed

lemma kchain_streams:
  "streams (kchain_state sid ks i)
   = [\<lparr>head = (if ks = [] then None else Some 0), filters = [0..<length ks], ident = sid\<rparr>]"
  by (simp add: kchain_state_def)

lemma send_relay:
  assumes "i < length ks"
    and "relay (streams (kchain_state sid ks i)) (drop i ks) i e = (ks', tr, None)"
  shows "send i e (kchain_state sid ks i) = (kchain_state sid (take i ks @ ks') i, tr, None)"
  using assms
proof (induction "length ks - i" arbitrary: i e ks ks' tr)
  case 0
  then show ?case by simp
next
  case (Suc d)
  let ?ss = "streams (kchain_state sid ks i)"
  from Suc.prems(1) have dr: "drop i ks = ks ! i # drop (Suc i) ks"
    by (simp add: Cons_nth_drop_Suc)
  obtain r k where fp: "Filter_process ?ss (ks ! i) e = (r, k)"
    by (cases "Filter_process ?ss (ks ! i) e")
  have upd: "take i ks @ k # drop (Suc i) ks = ks[i := k]"
    using Suc.prems(1) by (simp add: upd_conv_take_nth_drop)
  show ?case
  proof (cases r)
    case (Inl err)
    with Suc.prems(2) dr fp show ?thesis by simp
  next
    case (Inr ro)
    show ?thesis
    proof (cases ro)
      case None
      with Suc.prems(2) dr fp Inr have "ks' = k # drop (Suc i) ks" and "tr = [Drop i]"
        by simp_all
      with fp Inr None Suc.prems(1) upd show ?thesis
        by (subst send.simps)
           (simp add: kchain_lookup_gen kchain_lookup_fltr kchain_set_kind)
    next
      case (Some result)
      show ?thesis
      proof (cases "Suc i < length ks")
        case False
        with Suc.prems(1) have e: "drop (Suc i) ks = []" by simp
        with Suc.prems(2) dr fp Inr Some have "ks' = [k]" and "tr = [Emit i result]"
          by simp_all
        with fp Inr Some Suc.prems(1) upd e False show ?thesis
          by (subst send.simps)
             (simp add: kchain_lookup_gen kchain_lookup_fltr kchain_set_kind)
      next
        case True
        obtain ks2 tr2 r2 where rl: "relay ?ss (drop (Suc i) ks) (Suc i) result = (ks2, tr2, r2)"
          by (cases "relay ?ss (drop (Suc i) ks) (Suc i) result")
        with Suc.prems(2) dr fp Inr Some have r2: "r2 = None"
          and ks': "ks' = k # ks2" and tr: "tr = Emit i result # tr2"
          by (auto split: option.splits)
        let ?ks1 = "ks[i := k]"
        have d: "d = length ?ks1 - Suc i" using Suc.hyps(2) by simp
        have lt: "Suc i < length ?ks1" using True by simp
        have ss1: "streams (kchain_state sid ?ks1 (Suc i)) = ?ss"
          by (simp add: kchain_streams)
        have dr1: "drop (Suc i) ?ks1 = drop (Suc i) ks" by simp
        have ih: "send (Suc i) result (kchain_state sid ?ks1 (Suc i))
            = (kchain_state sid (take (Suc i) ?ks1 @ ks2) (Suc i), tr2, None)"
          using Suc.hyps(1) [OF d lt, of result ks2 tr2] rl r2 by (simp add: ss1 dr1)
        have l2: "length ks2 = length (drop (Suc i) ks)"
          using relay_length [of ?ss "drop (Suc i) ks" "Suc i" result] rl by simp
        have tk: "take (Suc i) ?ks1 @ ks2 = take i ks @ k # ks2"
          using Suc.prems(1) by (simp add: take_Suc_conv_app_nth)
        have len: "i < length (take i ks @ k # ks2)"
          using Suc.prems(1) by simp
        have sus: "set_status i Suspended (kchain_state sid (take i ks @ k # ks2) (Suc i))
            = kchain_state sid (take i ks @ k # ks2) i"
          using len by (rule kchain_suspended)
        from fp Inr Some Suc.prems(1) True show ?thesis
          by (subst send.simps)
             (simp add: kchain_lookup_gen kchain_lookup_fltr kchain_set_kind kchain_running
                ih tk sus ks' tr)
      qed
    qed
  qed
qed


lemma process_relay:
  assumes "relay (streams (kchain_state sid ks 0)) ks 0 \<lparr>stream_id = sid, data = x\<rparr>
             = (ks', tr, None)"
  shows "Stream_process x 0 (kchain_state sid ks 0) = (kchain_state sid ks' 0, tr, None)"
proof (cases "ks = []")
  case True
  with assms show ?thesis
    by (simp add: Stream_process_def lookup_def kchain_state_def)
next
  case False
  then have pos: "0 < length ks" by simp
  from send_relay [OF pos, of sid "\<lparr>stream_id = sid, data = x\<rparr>" ks' tr] assms
  have "send 0 \<lparr>stream_id = sid, data = x\<rparr> (kchain_state sid ks 0)
      = (kchain_state sid ks' 0, tr, None)" by simp
  with False show ?thesis
    by (simp add: Stream_process_def lookup_def kchain_streams)
qed

lemma feed_relay:
  assumes "relay_all (streams (kchain_state sid ks 0)) ks sid xs = (ks', trs, None)"
  shows "feed (map (Pair 0) xs) (kchain_state sid ks 0) = (kchain_state sid ks' 0, trs, None)"
  using assms
proof (induction xs arbitrary: ks trs)
  case Nil
  then show ?case by simp
next
  case (Cons x xs)
  let ?ss = "streams (kchain_state sid ks 0)"
  obtain ks1 tr r where rl: "relay ?ss ks 0 \<lparr>stream_id = sid, data = x\<rparr> = (ks1, tr, r)"
    by (cases "relay ?ss ks 0 \<lparr>stream_id = sid, data = x\<rparr>")
  with Cons.prems have r: "r = None" by (cases r) simp_all
  obtain ks2 trs2 r2 where ra: "relay_all ?ss ks1 sid xs = (ks2, trs2, r2)"
    by (cases "relay_all ?ss ks1 sid xs")
  with Cons.prems rl r have r2: "r2 = None" and ks': "ks' = ks2" and trs: "trs = tr # trs2"
    by simp_all
  have l1: "length ks1 = length ks"
    using relay_length [of ?ss ks 0 "\<lparr>stream_id = sid, data = x\<rparr>"] rl by simp
  then have ss1: "streams (kchain_state sid ks1 0) = ?ss"
    by (auto simp add: kchain_streams)
  from Cons.IH [of ks1 trs2] ra r2 ss1 ks'
  have ih: "feed (map (Pair 0) xs) (kchain_state sid ks1 0) = (kchain_state sid ks' 0, trs2, None)"
    by simp
  from process_relay [of sid ks x ks1 tr] rl r
  have "Stream_process x 0 (kchain_state sid ks 0) = (kchain_state sid ks1 0, tr, None)"
    by simp
  with ih trs show ?case by simp
qed

lemma plain_process:
  assumes "plain k" and "Filter_process ss k e = (Inr ro, k')"
  shows "plain k' \<and> (\<exists>v. ro = Some \<lparr>stream_id = stream_id e, data = v\<rparr>)"
  using assms
  by (cases k) (auto simp add: Mapper_process_def Reducer_process_def split: sum.splits)

lemma relay_plain:
  assumes "list_all plain ks" and "relay ss ks b e = (ks', tr, None)"
  shows "list_all plain ks' \<and> length tr = length ks
       \<and> (\<forall>q<length ks. \<exists>v. tr ! q = Emit (b + q) \<lparr>stream_id = stream_id e, data = v\<rparr>)"
  using assms
proof (induction ks arbitrary: b e ks' tr)
  case Nil
  then show ?case by simp
next
  case (Cons k ks)
  from Cons.prems(1) have pk: "plain k" and pks: "list_all plain ks" by simp_all
  obtain r k' where fp: "Filter_process ss k e = (r, k')"
    by (cases "Filter_process ss k e")
  show ?case
  proof (cases r)
    case (Inl err)
    with Cons.prems(2) fp show ?thesis by simp
  next
    case (Inr ro)
    from plain_process [OF pk fp [unfolded Inr]]
    obtain v where pk': "plain k'" and ro: "ro = Some \<lparr>stream_id = stream_id e, data = v\<rparr>"
      by blast
    let ?r = "\<lparr>stream_id = stream_id e, data = v\<rparr>"
    obtain ks2 tr2 r2 where rl: "relay ss ks (Suc b) ?r = (ks2, tr2, r2)"
      by (cases "relay ss ks (Suc b) ?r")
    with Cons.prems(2) fp Inr ro have r2: "r2 = None" and ks': "ks' = k' # ks2"
      and tr: "tr = Emit b ?r # tr2"
      by (auto split: option.splits)
    from Cons.IH [OF pks rl [unfolded r2]]
    have p2: "list_all plain ks2" and l2: "length tr2 = length ks"
      and e2: "\<forall>q<length ks. \<exists>w. tr2 ! q = Emit (Suc b + q) \<lparr>stream_id = stream_id e, data = w\<rparr>"
      by simp_all
    have "\<exists>w. tr ! q = Emit (b + q) \<lparr>stream_id = stream_id e, data = w\<rparr>"
      if "q < length (k # ks)" for q
    proof (cases q)
      case 0
      then show ?thesis by (simp add: tr)
    next
      case (Suc q')
      with that have "q' < length ks" by simp
      with e2 Suc show ?thesis by (simp add: tr)
    qed
    with pk' p2 l2 show ?thesis by (simp add: ks' tr)
  qed
qed

lemma relay_reducer:
  assumes "list_all plain ks" and "relay ss ks b e = (ks', tr, None)"
    and "p < length ks" and "ks ! p = Reducer f acc initial"
  shows "\<exists>a. f (reaching p (data e, tr)) acc = Inr a
            \<and> ks' ! p = Reducer f a initial
            \<and> tr ! p = Emit (b + p) \<lparr>stream_id = stream_id e, data = a\<rparr>"
  using assms
proof (induction ks arbitrary: b e ks' tr p)
  case Nil
  then show ?case by simp
next
  case (Cons k ks)
  from Cons.prems(1) have pk: "plain k" and pks: "list_all plain ks" by simp_all
  obtain r k' where fp: "Filter_process ss k e = (r, k')"
    by (cases "Filter_process ss k e")
  show ?case
  proof (cases r)
    case (Inl err)
    with Cons.prems(2) fp show ?thesis by simp
  next
    case (Inr ro)
    from plain_process [OF pk fp [unfolded Inr]]
    obtain v where pk': "plain k'" and ro: "ro = Some \<lparr>stream_id = stream_id e, data = v\<rparr>"
      by blast
    let ?r = "\<lparr>stream_id = stream_id e, data = v\<rparr>"
    obtain ks2 tr2 r2 where rl: "relay ss ks (Suc b) ?r = (ks2, tr2, r2)"
      by (cases "relay ss ks (Suc b) ?r")
    with Cons.prems(2) fp Inr ro have r2: "r2 = None" and ks': "ks' = k' # ks2"
      and tr: "tr = Emit b ?r # tr2"
      by (auto split: option.splits)
    show ?thesis
    proof (cases p)
      case 0
      with Cons.prems(4) have k: "k = Reducer f acc initial" by simp
      from fp Inr ro have "f (data e) acc = Inr v" and "k' = Reducer f v initial"
        unfolding k by (auto simp add: Reducer_process_def split: sum.splits)
      with 0 show ?thesis by (simp add: reaching_def ks' tr)
    next
      case (Suc p')
      with Cons.prems(3,4) have p': "p' < length ks" and kp: "ks ! p' = Reducer f acc initial"
        by simp_all
      from Cons.IH [OF pks rl [unfolded r2] p' kp]
      obtain a where fa: "f (reaching p' (data ?r, tr2)) acc = Inr a"
        and k2: "ks2 ! p' = Reducer f a initial"
        and t2: "tr2 ! p' = Emit (Suc b + p') \<lparr>stream_id = stream_id e, data = a\<rparr>"
        by auto
      have "reaching (Suc p') (data e, tr) = reaching p' (data ?r, tr2)"
        by (cases p') (simp_all add: reaching_def tr)
      with fa k2 t2 Suc show ?thesis by (simp add: ks' tr)
    qed
  qed
qed

lemma relay_all_reducer:
  assumes "list_all plain ks" and "relay_all ss ks sid xs = (ks', trs, None)"
    and "p < length ks" and "ks ! p = Reducer f acc initial"
  shows "length trs = length xs
       \<and> (\<forall>n<length xs. \<exists>a. trs ! n ! p = Emit p \<lparr>stream_id = sid, data = a\<rparr>
              \<and> fold_all f acc (map (reaching p) (take (Suc n) (zip xs trs))) = Inr a)"
  using assms
proof (induction xs arbitrary: ks ks' acc trs)
  case Nil
  then show ?case by simp
next
  case (Cons x xs)
  let ?e = "\<lparr>stream_id = sid, data = x\<rparr>"
  obtain ks1 tr r where rl: "relay ss ks 0 ?e = (ks1, tr, r)"
    by (cases "relay ss ks 0 ?e")
  with Cons.prems(2) have r: "r = None" by (cases r) simp_all
  obtain ks2 trs2 r2 where ra: "relay_all ss ks1 sid xs = (ks2, trs2, r2)"
    by (cases "relay_all ss ks1 sid xs")
  with Cons.prems(2) rl r have r2: "r2 = None" and trs: "trs = tr # trs2"
    by simp_all
  from relay_plain [OF Cons.prems(1) rl [unfolded r]]
  have p1: "list_all plain ks1" by simp
  have l1: "length ks1 = length ks"
    using relay_length [of ss ks 0 ?e] rl by simp
  from relay_reducer [OF Cons.prems(1) rl [unfolded r] Cons.prems(3,4)]
  obtain a1 where fa: "f (reaching p (x, tr)) acc = Inr a1"
    and k1: "ks1 ! p = Reducer f a1 initial"
    and t1: "tr ! p = Emit p \<lparr>stream_id = sid, data = a1\<rparr>"
    by auto
  from Cons.prems(3) l1 have p': "p < length ks1" by simp
  from Cons.IH [OF p1 ra [unfolded r2] p' k1]
  have l2: "length trs2 = length xs"
    and ih: "\<forall>n<length xs. \<exists>a. trs2 ! n ! p = Emit p \<lparr>stream_id = sid, data = a\<rparr>
              \<and> fold_all f a1 (map (reaching p) (take (Suc n) (zip xs trs2))) = Inr a"
    by simp_all
  have "\<exists>a. trs ! n ! p = Emit p \<lparr>stream_id = sid, data = a\<rparr>
          \<and> fold_all f acc (map (reaching p) (take (Suc n) (zip (x # xs) trs))) = Inr a"
    if "n < length (x # xs)" for n
  proof (cases n)
    case 0
    with fa t1 show ?thesis by (simp add: trs)
  next
    case (Suc m)
    with that have "m < length xs" by simp
    with ih obtain a where "trs2 ! m ! p = Emit p \<lparr>stream_id = sid, data = a\<rparr>"
      and "fold_all f a1 (map (reaching p) (take (Suc m) (zip xs trs2))) = Inr a"
      by blast
    with fa Suc show ?thesis by (simp add: trs)
  qed
  with l2 show ?case by (simp add: trs)
qed

lemma plain_stage_kinds: "list_all plain (map stage_kind sts)"
proof (induction sts)
  case Nil
  then show ?case by simp
next
  case (Cons st sts)
  then show ?case by (cases st) simp_all
qed

text \<open>
  Claim C5. Take the stream built by \<^verbatim>\<open>Stream(sid)\<close> and any sequence of \<^verbatim>\<open>map\<close> and
  \<^verbatim>\<open>reduce\<close> calls, with a \<^verbatim>\<open>reduce(f, initial)\<close> at position \<open>p\<close>, and a sequence of
  inputs on which no transform raises (the stages, called one after the other, give the
  events \<open>trs\<close>). Then feeding the inputs by successive \<^verbatim>\<open>process\<close> calls raises nothing
  and gives these events through the generators; in every call the reducer (filter \<open>p\<close>)
  returns an element, never \<^verbatim>\<open>None\<close>; and the element of the \<open>n\<close>-th call carries \<open>f\<close>
  folded, from \<open>initial\<close> and in call order, over the values that reached the reducer in
  the first \<open>n\<close> calls. When the reducer is the first stage these are the first \<open>n\<close>
  inputs themselves.
\<close>

theorem reduce_folds:
  assumes "built sid sts = Inr (st, s)" and "p < length sts" and "sts ! p = Reduce f initial"
    and "relay_all (streams s) (map stage_kind sts) sid xs = (ks, trs, None)"
  shows "\<exists>s'. feed (map (Pair st) xs) s = (s', trs, None)
           \<and> length trs = length xs
           \<and> (\<forall>n<length xs. \<exists>a. trs ! n ! p = Emit p \<lparr>stream_id = sid, data = a\<rparr>
                  \<and> fold_all f initial (map (reaching p) (take (Suc n) (zip xs trs))) = Inr a
                  \<and> (p = 0 \<longrightarrow> fold_all f initial (take (Suc n) xs) = Inr a))"
proof -
  from assms(1) have st: "st = 0" and s: "s = kchain_state sid (map stage_kind sts) 0"
    by (simp_all add: built_eq)
  have run: "feed (map (Pair st) xs) s = (kchain_state sid ks 0, trs, None)"
    unfolding st s using assms(4) [unfolded s] by (rule feed_relay)
  have pl: "list_all plain (map stage_kind sts)" by (rule plain_stage_kinds)
  have p: "p < length (map stage_kind sts)" using assms(2) by simp
  have kp: "map stage_kind sts ! p = Reducer f initial initial"
    using assms(2,3) by simp
  from relay_all_reducer [OF pl assms(4) p kp]
  have len: "length trs = length xs"
    and fold: "\<forall>n<length xs. \<exists>a. trs ! n ! p = Emit p \<lparr>stream_id = sid, data = a\<rparr>
              \<and> fold_all f initial (map (reaching p) (take (Suc n) (zip xs trs))) = Inr a"
    by simp_all
  have head: "map (reaching 0) (take k (zip xs trs)) = take k xs" for k
  proof -
    have "map (reaching 0) (take k (zip xs trs)) = take k (map fst (zip xs trs))"
      by (simp add: take_map reaching_def)
    also have "map fst (zip xs trs) = xs" using len by simp
    finally show ?thesis .
  qed
  have "\<exists>a. trs ! n ! p = Emit p \<lparr>stream_id = sid, data = a\<rparr>
          \<and> fold_all f initial (map (reaching p) (take (Suc n) (zip xs trs))) = Inr a
          \<and> (p = 0 \<longrightarrow> fold_all f initial (take (Suc n) xs) = Inr a)"
    if "n < length xs" for n
  proof -
    from fold that obtain a where a: "trs ! n ! p = Emit p \<lparr>stream_id = sid, data = a\<rparr>"
      "fold_all f initial (map (reaching p) (take (Suc n) (zip xs trs))) = Inr a"
      by blast
    then have "p = 0 \<longrightarrow> fold_all f initial (take (Suc n) xs) = Inr a"
      using head [of "Suc n"] by auto
    with a show ?thesis by blast
  qed
  with run len show ?thesis by blast
qed

text \<open>
  \<^verbatim>\<open>Stream().map(times_2).reduce(add, 1).map(times_2)\<close> fed 4, 4 and 4: the reducer
  returns 9, 17 and 25, the fold of \<^verbatim>\<open>add\<close> over 8, 8 and 8. \<^verbatim>\<open>test_reduce\<close> with a
  doubling in place of the collector, \<^verbatim>\<open>Stream().reduce(add, 1).map(times_2)\<close>: the
  reducer returns 5, 9 and 13.
\<close>

theorem reduce_folds_witness:
  "snd (feed (map (Pair 0) [VInt 4, VInt 4, VInt 4])
          (kchain_state ''s'' (map stage_kind [Map times_2, Reduce add (VInt 1), Map times_2]) 0))
     = ([ [Emit 0 \<lparr>stream_id = ''s'', data = VInt 8\<rparr>,
          Emit 1 \<lparr>stream_id = ''s'', data = VInt 9\<rparr>,
          Emit 2 \<lparr>stream_id = ''s'', data = VInt 18\<rparr>],
         [Emit 0 \<lparr>stream_id = ''s'', data = VInt 8\<rparr>,
          Emit 1 \<lparr>stream_id = ''s'', data = VInt 17\<rparr>,
          Emit 2 \<lparr>stream_id = ''s'', data = VInt 34\<rparr>],
         [Emit 0 \<lparr>stream_id = ''s'', data = VInt 8\<rparr>,
          Emit 1 \<lparr>stream_id = ''s'', data = VInt 25\<rparr>,
          Emit 2 \<lparr>stream_id = ''s'', data = VInt 50\<rparr>] ], None)
   \<and> fold_all add (VInt 1) [VInt 8, VInt 8, VInt 8] = Inr (VInt 25)
   \<and> snd (feed (map (Pair 0) [VInt 4, VInt 4, VInt 4])
          (kchain_state ''s'' (map stage_kind [Reduce add (VInt 1), Map times_2]) 0))
     = ([ [Emit 0 \<lparr>stream_id = ''s'', data = VInt 5\<rparr>,
          Emit 1 \<lparr>stream_id = ''s'', data = VInt 10\<rparr>],
         [Emit 0 \<lparr>stream_id = ''s'', data = VInt 9\<rparr>,
          Emit 1 \<lparr>stream_id = ''s'', data = VInt 18\<rparr>],
         [Emit 0 \<lparr>stream_id = ''s'', data = VInt 13\<rparr>,
          Emit 1 \<lparr>stream_id = ''s'', data = VInt 26\<rparr>] ], None)
   \<and> fold_all add (VInt 1) [VInt 4, VInt 4, VInt 4] = Inr (VInt 13)"
proof -
  let ?xs = "[VInt 4, VInt 4, VInt 4]"
  let ?sts1 = "[Map times_2, Reduce add (VInt 1), Map times_2]"
  let ?sts2 = "[Reduce add (VInt 1), Map times_2]"
  let ?t1 = "[ [Emit 0 \<lparr>stream_id = ''s'', data = VInt 8\<rparr>,
          Emit 1 \<lparr>stream_id = ''s'', data = VInt 9\<rparr>,
          Emit 2 \<lparr>stream_id = ''s'', data = VInt 18\<rparr>],
         [Emit 0 \<lparr>stream_id = ''s'', data = VInt 8\<rparr>,
          Emit 1 \<lparr>stream_id = ''s'', data = VInt 17\<rparr>,
          Emit 2 \<lparr>stream_id = ''s'', data = VInt 34\<rparr>],
         [Emit 0 \<lparr>stream_id = ''s'', data = VInt 8\<rparr>,
          Emit 1 \<lparr>stream_id = ''s'', data = VInt 25\<rparr>,
          Emit 2 \<lparr>stream_id = ''s'', data = VInt 50\<rparr>] ]"
  let ?t2 = "[ [Emit 0 \<lparr>stream_id = ''s'', data = VInt 5\<rparr>,
          Emit 1 \<lparr>stream_id = ''s'', data = VInt 10\<rparr>],
         [Emit 0 \<lparr>stream_id = ''s'', data = VInt 9\<rparr>,
          Emit 1 \<lparr>stream_id = ''s'', data = VInt 18\<rparr>],
         [Emit 0 \<lparr>stream_id = ''s'', data = VInt 13\<rparr>,
          Emit 1 \<lparr>stream_id = ''s'', data = VInt 26\<rparr>] ]"
  have b1: "built ''s'' ?sts1 = Inr (0, kchain_state ''s'' (map stage_kind ?sts1) 0)"
    by (rule built_eq)
  have b2: "built ''s'' ?sts2 = Inr (0, kchain_state ''s'' (map stage_kind ?sts2) 0)"
    by (rule built_eq)
  have p1: "1 < length ?sts1" and q1: "?sts1 ! 1 = Reduce add (VInt 1)"
    and p2: "0 < length ?sts2" and q2: "?sts2 ! 0 = Reduce add (VInt 1)"
    by simp_all
  have r1: "relay_all (streams (kchain_state ''s'' (map stage_kind ?sts1) 0))
              (map stage_kind ?sts1) ''s'' ?xs
            = ([Mapper times_2, Reducer add (VInt 25) (VInt 1), Mapper times_2], ?t1, None)"
    by (simp add: Mapper_process_def Reducer_process_def)
  have r2: "relay_all (streams (kchain_state ''s'' (map stage_kind ?sts2) 0))
              (map stage_kind ?sts2) ''s'' ?xs
            = ([Reducer add (VInt 13) (VInt 1), Mapper times_2], ?t2, None)"
    by (simp add: Mapper_process_def Reducer_process_def)
  from reduce_folds [OF b1 p1 q1 r1]
  have f1: "snd (feed (map (Pair 0) ?xs) (kchain_state ''s'' (map stage_kind ?sts1) 0))
      = (?t1, None)"
    by auto
  from reduce_folds [OF b2 p2 q2 r2]
  have f2: "snd (feed (map (Pair 0) ?xs) (kchain_state ''s'' (map stage_kind ?sts2) 0))
      = (?t2, None)"
    by auto
  show ?thesis using f1 f2 by simp
qed

end
